theory Spec2Isabelle
  imports Main "HOL-Library.Word" "HOL-Library.Signed_Division"
begin

unbundle bit_operations_syntax

section \<open>Machine integers and outcomes\<close>

text \<open>
  \<^verbatim>\<open>unwindingtest.cpp\<close> computes on \<^verbatim>\<open>int\<close>, \<^verbatim>\<open>unsigned\<close> (both 32 bits wide on the
  targets the program is built for) and \<^verbatim>\<open>uint64_t\<close>. All three are words; the signed
  reading of an \<^verbatim>\<open>int\<close> is \<open>sint\<close>, the reading of an unsigned value is \<open>unat\<close>.
  Signed overflow is undefined in C++; the model takes the two's-complement wrap-around
  that the generated machine code performs.
\<close>

type_synonym c_int = "32 word"
type_synonym c_unsigned = "32 word"
type_synonym uint64_t = "64 word"

text \<open>\<^verbatim>\<open>a / b\<close> on \<^verbatim>\<open>int\<close>: the quotient truncated towards zero.\<close>

definition int_div :: "c_int \<Rightarrow> c_int \<Rightarrow> c_int" where
  "int_div a b = word_of_int (sint a sdiv sint b)"

text \<open>
  A call either returns a value or leaves by \<^verbatim>\<open>throw\<close> with an \<^verbatim>\<open>int\<close> (the only type
  the program ever throws).
\<close>

datatype 'a outcome = Returned 'a | Thrown c_int

section \<open>The callback\<close>

text \<open>
  \<^verbatim>\<open>
  static int callback(int v) {
     if (v < 1) throw v;
     if (v & 1) return 3 * v + 1;
     return v / 2;
  }
  \<close>
\<close>

definition callback :: "c_int \<Rightarrow> c_int outcome" where
  "callback v =
     (if v <s 1 then Thrown v
      else if v AND 1 \<noteq> 0 then Returned (3 * v + 1)
      else Returned (int_div v 2))"

text \<open>
  The oracle as the specification words it, on unbounded integers: an exception carrying
  \<open>v\<close> below 1, otherwise \<open>3v + 1\<close> for odd and \<open>v / 2\<close> for even \<open>v\<close>.
\<close>

datatype oracle_result = Raises int | Yields int

definition oracle_spec :: "int \<Rightarrow> oracle_result" where
  "oracle_spec v =
     (if v < 1 then Raises v else if odd v then Yields (3 * v + 1) else Yields (v div 2))"

text \<open>The signed reading of what a call of type \<^verbatim>\<open>int\<close> did.\<close>

fun observed :: "c_int outcome \<Rightarrow> oracle_result" where
  "observed (Returned r) = Yields (sint r)"
| "observed (Thrown e) = Raises (sint e)"

section \<open>The generated function and its container\<close>

text \<open>
  \<^verbatim>\<open>JITContainer\<close> builds the IR of
  \<^verbatim>\<open>int foo(int(*bar)(int), int v) { return bar(v); }\<close>,
  hands it to LLVM and keeps the address LLVM resolves for \<^verbatim>\<open>foo\<close> in \<^verbatim>\<open>jitedCode\<close>.
  LLVM is not part of the repository: a container is a record of whatever function the
  resolved address computes, and \<open>foo\<close> is the function the IR describes.
\<close>

record JITContainer =
  jitedCode :: "(c_int \<Rightarrow> c_int outcome) \<Rightarrow> c_int \<Rightarrow> c_int outcome"

definition foo :: "(c_int \<Rightarrow> c_int outcome) \<Rightarrow> c_int \<Rightarrow> c_int outcome" where
  "foo bar v = bar v"

definition invoke :: "JITContainer \<Rightarrow> (c_int \<Rightarrow> c_int outcome) \<Rightarrow> c_int \<Rightarrow> c_int outcome" where
  "invoke jit cb v = jitedCode jit cb v"

text \<open>The container whose compiled code does what the IR says.\<close>

definition JITContainer_foo :: JITContainer where
  "JITContainer_foo = \<lparr>jitedCode = foo\<rparr>"

section \<open>The check helper\<close>

text \<open>
  \<^verbatim>\<open>exit(1)\<close> ends the process; the line written to \<^verbatim>\<open>std::cerr\<close> before it is kept
  by its parts. A function that may end the process returns \<open>process_exit + 'a\<close>.
  \<^verbatim>\<open>
  static bool doTest(const JITContainer& jitCode, int input, int expected) {
     try {
        int r = jitCode.invoke(callback, input);
        if ((r < 0) || (r != expected)) { std::cerr << ...; exit(1); }
     } catch (int) {
        if (expected >= 0) { std::cerr << ...; exit(1); }
     }
     return true;
  }
  \<close>
\<close>

datatype got = Got_value c_int | Got_exception

datatype stderr_line =
    Unexpected_result c_int c_int got  \<comment> \<open>input, expected, what was got\<close>
  | Invalid_result

datatype process_exit = Exit (status: nat) (reported: stderr_line)

definition doTest :: "JITContainer \<Rightarrow> c_int \<Rightarrow> c_int \<Rightarrow> process_exit + bool" where
  "doTest jitCode input expected =
     (case invoke jitCode callback input of
        Returned r \<Rightarrow>
          if r <s 0 \<or> r \<noteq> expected
          then Inl (Exit 1 (Unexpected_result input expected (Got_value r)))
          else Inr True
      | Thrown e \<Rightarrow>
          if 0 \<le>s expected
          then Inl (Exit 1 (Unexpected_result input expected Got_exception))
          else Inr True)"

text \<open>
  The expected value as the stress loop computes it:
  \<^verbatim>\<open>int expected = (arg < 1) ? -1 : ((arg & 1) ? (3 * arg + 1) : (arg / 2));\<close>
\<close>

definition expected_of :: "c_int \<Rightarrow> c_int" where
  "expected_of arg =
     (if arg <s 1 then - 1 else if arg AND 1 \<noteq> 0 then 3 * arg + 1 else int_div arg 2)"

section \<open>The pseudo-random generator\<close>

text \<open>
  \<^verbatim>\<open>
  struct Random {
     uint64_t state;
     Random(uint64_t seed) : state((seed << 1) | 1) {}
     uint64_t operator()() {
        uint64_t x = state;
        x ^= x >> 12;
        x ^= x << 25;
        x ^= x >> 27;
        state = x;
        return x * 0x2545F4914F6CDD1DULL;
     }
  };
  \<close>
  The constructor is \<open>Random_init\<close>; a draw returns the value and the generator with its
  new state.
\<close>

record Random =
  state :: uint64_t

definition Random_init :: "uint64_t \<Rightarrow> Random" where
  "Random_init seed = \<lparr>state = push_bit 1 seed OR 1\<rparr>"

definition Random_draw :: "Random \<Rightarrow> uint64_t \<times> Random" where
  "Random_draw rnd =
     (let x = state rnd;
          x = x XOR drop_bit 12 x;
          x = x XOR push_bit 25 x;
          x = x XOR drop_bit 27 x
      in (x * 0x2545F4914F6CDD1D, rnd\<lparr>state := x\<rparr>))"

text \<open>The first \<open>n\<close> values a generator draws.\<close>

fun draws :: "nat \<Rightarrow> Random \<Rightarrow> uint64_t list" where
  "draws 0 rnd = []"
| "draws (Suc n) rnd = fst (Random_draw rnd) # draws n (snd (Random_draw rnd))"

text \<open>
  The three shift-xor steps as the specification names them, and the multiplier of the
  finishing step.
\<close>

definition xorshift :: "uint64_t \<Rightarrow> uint64_t" where
  "xorshift x0 =
     (let x1 = x0 XOR drop_bit 12 x0; x2 = x1 XOR push_bit 25 x1 in x2 XOR drop_bit 27 x2)"

definition multiplier :: uint64_t where
  "multiplier = 0x2545F4914F6CDD1D"

section \<open>One pass of the stress loop\<close>

text \<open>
  The argument of one invocation, from the value \<open>r\<close> just drawn:
  \<^verbatim>\<open>int arg = ((r % 1000) < errorRate) ? -1 : ((r & 0xFFFF) + 1);\<close>
  Both branches of the conditional are converted to \<^verbatim>\<open>uint64_t\<close>, the type of the
  third operand, and the result is narrowed to \<^verbatim>\<open>int\<close>.
\<close>

definition test_arg :: "c_unsigned \<Rightarrow> uint64_t \<Rightarrow> c_int" where
  "test_arg errorRate r =
     ucast (if r mod 1000 < ucast errorRate then - 1 else (r AND 0xFFFF) + 1 :: uint64_t)"

text \<open>
  \<^verbatim>\<open>
  static unsigned doTest(unsigned errorRate, unsigned seed) {
     Random random(seed);
     constexpr unsigned functionRepeat = 10;
     constexpr unsigned repeat = 10000;
     unsigned result = 0;
     for (unsigned pass = 0; pass != functionRepeat; ++pass) {
        JITContainer jitCode;
        for (unsigned index = 0; index != repeat; ++index) {
           auto r = random();
           int arg = ...;
           int expected = ...;
           result += doTest(jitCode, arg, expected);
        }
     }
     if (!result)
        std::cerr << "invalid result!" << std::endl;
     ...
  }
  \<close>
  The state of a pass is the generator and the counter; \<open>trace\<close> records, in order, every
  construction and destruction of a container and every invocation with its argument and
  expected value. What a constructed container computes is LLVM's doing: \<open>compile pass\<close>
  is the container constructed in iteration \<open>pass\<close> of the outer loop. The value the
  function returns is a wall-clock duration, which the model leaves out.
\<close>

datatype event = Construct | Invoke c_int c_int | Destruct

record pass_state =
  random :: Random
  result :: c_unsigned
  trace :: "event list"

definition functionRepeat :: c_unsigned where
  "functionRepeat = 10"

definition repeat :: c_unsigned where
  "repeat = 10000"

function inner_loop ::
  "JITContainer \<Rightarrow> c_unsigned \<Rightarrow> c_unsigned \<Rightarrow> pass_state \<Rightarrow> process_exit + pass_state" where
  "inner_loop jitCode errorRate index st =
     (if index \<noteq> repeat then
        (let d = Random_draw (random st);
             arg = test_arg errorRate (fst d);
             expected = expected_of arg
         in case doTest jitCode arg expected of
              Inl ex \<Rightarrow> Inl ex
            | Inr b \<Rightarrow>
                inner_loop jitCode errorRate (index + 1)
                  (st\<lparr>random := snd d, result := result st + of_bool b,
                      trace := trace st @ [Invoke arg expected]\<rparr>))
      else Inr st)"
  by pat_completeness auto
termination
proof (relation "measure (\<lambda>(jitCode, errorRate, index, st). unat (repeat - index))")
  show "wf (measure (\<lambda>(jitCode, errorRate, index, st). unat (repeat - index)))"
    by simp
next
  fix jitCode :: JITContainer and errorRate index :: c_unsigned and st :: pass_state
  assume "index \<noteq> repeat"
  then have nz: "repeat - index \<noteq> 0"
    by simp
  then have "0 < unat (repeat - index)"
    by (simp add: unat_gt_0)
  then have "unat (repeat - index - 1) < unat (repeat - index)"
    using unat_minus_one [OF nz] by simp
  also have "repeat - index - 1 = repeat - (index + 1)"
    by simp
  finally show "\<And>x xa xb y. ((jitCode, errorRate, index + 1,
      st\<lparr>random := snd x, result := result st + of_bool y, trace := trace st @ [Invoke xa xb]\<rparr>),
      jitCode, errorRate, index, st)
      \<in> measure (\<lambda>(jitCode, errorRate, index, st). unat (repeat - index))"
    by simp
qed

function outer_loop ::
  "(c_unsigned \<Rightarrow> JITContainer) \<Rightarrow> c_unsigned \<Rightarrow> c_unsigned \<Rightarrow> pass_state
     \<Rightarrow> process_exit + pass_state" where
  "outer_loop compile errorRate pass st =
     (if pass \<noteq> functionRepeat then
        (case inner_loop (compile pass) errorRate 0 (st\<lparr>trace := trace st @ [Construct]\<rparr>) of
           Inl ex \<Rightarrow> Inl ex
         | Inr st' \<Rightarrow>
             outer_loop compile errorRate (pass + 1) (st'\<lparr>trace := trace st' @ [Destruct]\<rparr>))
      else Inr st)"
  by pat_completeness auto
termination
proof (relation "measure (\<lambda>(compile, errorRate, pass, st). unat (functionRepeat - pass))")
  show "wf (measure (\<lambda>(compile, errorRate, pass, st). unat (functionRepeat - pass)))"
    by simp
next
  fix compile :: "c_unsigned \<Rightarrow> JITContainer" and errorRate pass :: c_unsigned
    and st st' :: pass_state
  assume "pass \<noteq> functionRepeat"
  then have nz: "functionRepeat - pass \<noteq> 0"
    by simp
  then have "0 < unat (functionRepeat - pass)"
    by (simp add: unat_gt_0)
  then have "unat (functionRepeat - pass - 1) < unat (functionRepeat - pass)"
    using unat_minus_one [OF nz] by simp
  also have "functionRepeat - pass - 1 = functionRepeat - (pass + 1)"
    by simp
  finally show "((compile, errorRate, pass + 1, st'\<lparr>trace := trace st' @ [Destruct]\<rparr>),
      compile, errorRate, pass, st)
      \<in> measure (\<lambda>(compile, errorRate, pass, st). unat (functionRepeat - pass))"
    by simp
qed

text \<open>
  A pass that is not cut short by \<^verbatim>\<open>exit\<close> ends with its state and with what it wrote
  to the error stream after the loops.
\<close>

definition doTest_pass ::
  "(c_unsigned \<Rightarrow> JITContainer) \<Rightarrow> c_unsigned \<Rightarrow> c_unsigned
     \<Rightarrow> process_exit + pass_state \<times> stderr_line list" where
  "doTest_pass compile errorRate seed =
     (case outer_loop compile errorRate 0
             \<lparr>random = Random_init (ucast seed), result = 0, trace = []\<rparr> of
        Inl ex \<Rightarrow> Inl ex
      | Inr st \<Rightarrow> Inr (st, if result st = 0 then [Invalid_result] else []))"

text \<open>
  For stating what a pass did: the generator after \<open>n\<close> draws, and the invocation that
  the loop body makes from a drawn value (the expected value computed from the argument).
\<close>

fun skip :: "nat \<Rightarrow> Random \<Rightarrow> Random" where
  "skip 0 rnd = rnd"
| "skip (Suc n) rnd = skip n (snd (Random_draw rnd))"

definition test_case :: "c_unsigned \<Rightarrow> uint64_t \<Rightarrow> event" where
  "test_case errorRate r = Invoke (test_arg errorRate r) (expected_of (test_arg errorRate r))"

text \<open>What one iteration of the outer loop leaves in the trace, for the \<open>k\<close>-th container.\<close>

definition unit_trace :: "c_unsigned \<Rightarrow> Random \<Rightarrow> nat \<Rightarrow> event list" where
  "unit_trace errorRate rnd k =
     Construct # map (test_case errorRate) (draws 10000 (skip (10000 * k) rnd)) @ [Destruct]"

text \<open>
  The outcomes of an invocation on which the check helper reaches neither of its two
  \<^verbatim>\<open>exit(1)\<close> (the conditions of lines 103 and 108 of the source, negated), and the
  arguments with which a pass invokes its \<open>k\<close>-th container.
\<close>

definition accepted :: "c_int outcome \<Rightarrow> c_int \<Rightarrow> bool" where
  "accepted out expected =
     (case out of
        Returned r \<Rightarrow> \<not> (r <s 0 \<or> r \<noteq> expected)
      | Thrown e \<Rightarrow> \<not> 0 \<le>s expected)"

definition unit_invocations :: "c_unsigned \<Rightarrow> Random \<Rightarrow> nat \<Rightarrow> c_int list" where
  "unit_invocations errorRate rnd k =
     map (test_arg errorRate) (draws 10000 (skip (10000 * k) rnd))"

section \<open>The orchestrator\<close>

text \<open>
  \<^verbatim>\<open>
  static unsigned doTestMultithreaded(unsigned errorRate, unsigned threadCount) {
     if (threadCount <= 1) return doTest(errorRate, 0);
     std::vector<std::thread> threads;
     std::atomic<unsigned> maxDuration{0};
     threads.reserve(threadCount);
     for (unsigned index = 0; index != threadCount; ++index) {
        threads.push_back(std::thread([index, errorRate, &maxDuration]() {
           unsigned duration = doTest(errorRate, index);
           unsigned current = maxDuration.load();
           while ((duration > current) && (!maxDuration.compare_exchange_weak(current, duration))) {}
        }));
     };
     for (auto& t : threads) t.join();
     return maxDuration.load();
  }
  \<close>
  First the passes the orchestrator starts: one call of \<open>doTest(errorRate, 0)\<close> on its own
  thread, or one thread per iteration of the spawning loop, whose body calls
  \<open>doTest(errorRate, index)\<close>. The spawning loop is kept as it is written; \<open>body index\<close>
  is what the thread made in iteration \<open>index\<close> runs. A pass constructs its own
  containers: \<open>compile index pass\<close> is the container that the thread with that index (0
  for the inline pass) constructs in iteration \<open>pass\<close> of its outer loop. The entry of a
  spawned thread is the pass as that thread runs it when no other thread ends the
  process first.
\<close>

type_synonym pass_outcome = "process_exit + pass_state \<times> stderr_line list"

datatype 'a schedule = Inline 'a | Spawned "'a list"

function spawn_loop ::
  "(c_unsigned \<Rightarrow> 'a) \<Rightarrow> c_unsigned \<Rightarrow> c_unsigned \<Rightarrow> 'a list \<Rightarrow> 'a list" where
  "spawn_loop body threadCount index threads =
     (if index \<noteq> threadCount
      then spawn_loop body threadCount (index + 1) (threads @ [body index])
      else threads)"
  by pat_completeness auto
termination
proof (relation "measure (\<lambda>(body, threadCount, index, threads). unat (threadCount - index))")
  show "wf (measure (\<lambda>(body, threadCount, index, threads). unat (threadCount - index)))"
    by simp
next
  fix body :: "c_unsigned \<Rightarrow> 'a" and threadCount index :: c_unsigned and threads :: "'a list"
  assume "index \<noteq> threadCount"
  then have nz: "threadCount - index \<noteq> 0"
    by simp
  then have "0 < unat (threadCount - index)"
    by (simp add: unat_gt_0)
  then have "unat (threadCount - index - 1) < unat (threadCount - index)"
    using unat_minus_one [OF nz] by simp
  also have "threadCount - index - 1 = threadCount - (index + 1)"
    by simp
  finally show "((body, threadCount, index + 1, threads @ [body index]),
      body, threadCount, index, threads)
      \<in> measure (\<lambda>(body, threadCount, index, threads). unat (threadCount - index))"
    by simp
qed

definition doTestMultithreaded_passes ::
  "(c_unsigned \<Rightarrow> c_unsigned \<Rightarrow> JITContainer) \<Rightarrow> c_unsigned \<Rightarrow> c_unsigned
     \<Rightarrow> pass_outcome schedule" where
  "doTestMultithreaded_passes compile errorRate threadCount =
     (if threadCount \<le> 1 then Inline (doTest_pass (compile 0) errorRate 0)
      else Spawned (spawn_loop (\<lambda>index. doTest_pass (compile index) errorRate index)
                      threadCount 0 []))"

text \<open>
  Then what the spawned threads do to \<^verbatim>\<open>maxDuration\<close>. The atomic operations are
  sequentially consistent, so an execution is an interleaving of the threads' atomic
  steps. A worker is still measuring (it has not yet loaded \<^verbatim>\<open>maxDuration\<close>; its
  \<open>doTest\<close> will return the duration listed for it), or it is at the loop test with its
  local \<^verbatim>\<open>current\<close>, or it has left the loop and can be joined. The steps of worker
  \<open>i\<close>:
  \<^item> \<open>load\<close>: \<^verbatim>\<open>current = maxDuration.load()\<close>;
  \<^item> \<open>leave\<close>: \<^verbatim>\<open>duration > current\<close> is false, the loop ends;
  \<^item> \<open>cas_success\<close>: \<^verbatim>\<open>duration > current\<close>, \<^verbatim>\<open>maxDuration\<close> still holds \<^verbatim>\<open>current\<close>,
    the exchange stores \<^verbatim>\<open>duration\<close> and returns true, the loop ends;
  \<^item> \<open>cas_failure\<close>: \<^verbatim>\<open>duration > current\<close> and the exchange fails (another value is
    stored, or spuriously: the exchange is the weak one), \<^verbatim>\<open>current\<close> receives the
    value stored and the loop goes round.
\<close>

datatype worker = Measuring | Looping c_unsigned | Joinable

record orchestrator =
  maxDuration :: c_unsigned
  workers :: "worker list"

inductive step :: "c_unsigned list \<Rightarrow> orchestrator \<Rightarrow> orchestrator \<Rightarrow> bool"
  for durations :: "c_unsigned list" where
  load:
    "i < length (workers s) \<Longrightarrow> workers s ! i = Measuring \<Longrightarrow>
     step durations s (s\<lparr>workers := (workers s)[i := Looping (maxDuration s)]\<rparr>)"
| leave:
    "i < length (workers s) \<Longrightarrow> workers s ! i = Looping current \<Longrightarrow>
     \<not> durations ! i > current \<Longrightarrow>
     step durations s (s\<lparr>workers := (workers s)[i := Joinable]\<rparr>)"
| cas_success:
    "i < length (workers s) \<Longrightarrow> workers s ! i = Looping current \<Longrightarrow>
     durations ! i > current \<Longrightarrow> maxDuration s = current \<Longrightarrow>
     step durations s
       (s\<lparr>maxDuration := durations ! i, workers := (workers s)[i := Joinable]\<rparr>)"
| cas_failure:
    "i < length (workers s) \<Longrightarrow> workers s ! i = Looping current \<Longrightarrow>
     durations ! i > current \<Longrightarrow>
     step durations s (s\<lparr>workers := (workers s)[i := Looping (maxDuration s)]\<rparr>)"

text \<open>
  The states an execution passes through, from \<^verbatim>\<open>maxDuration{0}\<close> and one worker per
  duration; the orchestrator returns \<^verbatim>\<open>maxDuration.load()\<close> once every worker is joined.
\<close>

inductive reachable :: "c_unsigned list \<Rightarrow> orchestrator \<Rightarrow> bool"
  for durations :: "c_unsigned list" where
  init:
    "reachable durations
       \<lparr>maxDuration = 0, workers = replicate (length durations) Measuring\<rparr>"
| after:
    "reachable durations s \<Longrightarrow> step durations s s' \<Longrightarrow> reachable durations s'"

definition joined :: "orchestrator \<Rightarrow> bool" where
  "joined s = list_all (\<lambda>w. w = Joinable) (workers s)"

definition doTestMultithreaded_returns :: "c_unsigned list \<Rightarrow> orchestrator \<Rightarrow> c_unsigned \<Rightarrow> bool" where
  "doTestMultithreaded_returns durations s v =
     (reachable durations s \<and> joined s \<and> v = maxDuration s)"

text \<open>
  The invariant of the executions: a worker's \<^verbatim>\<open>current\<close> was read from
  \<^verbatim>\<open>maxDuration\<close>, which never decreases, and a worker that left the loop has its
  duration below it.
\<close>

definition max_inv :: "c_unsigned list \<Rightarrow> orchestrator \<Rightarrow> bool" where
  "max_inv durations s \<longleftrightarrow>
     length (workers s) = length durations \<and>
     (\<forall>i < length durations.
        (workers s ! i = Joinable \<longrightarrow> durations ! i \<le> maxDuration s) \<and>
        (\<forall>c. workers s ! i = Looping c \<longrightarrow> c \<le> maxDuration s))"

section \<open>The list of thread counts\<close>

text \<open>
  \<^verbatim>\<open>
  static std::vector<unsigned> buildThreadCounts(unsigned maxCount) {
     std::vector<unsigned> threadCounts{1};
     while (threadCounts.back() < maxCount)
        threadCounts.push_back(std::min(threadCounts.back() * 2, maxCount));
     return threadCounts;
  }
  \<close>
  The multiplication is on \<^verbatim>\<open>unsigned\<close> and wraps. Nothing bounds the number of
  iterations, so the loop is a partial function: \<open>None\<close> is a loop that never leaves
  (the vector grows until the process runs out of memory). The vector is never empty,
  so \<^verbatim>\<open>back()\<close> is \<open>last\<close>.
\<close>

partial_function (option) buildThreadCounts_loop ::
  "c_unsigned \<Rightarrow> c_unsigned list \<Rightarrow> c_unsigned list option" where
  "buildThreadCounts_loop maxCount threadCounts =
     (if last threadCounts < maxCount
      then buildThreadCounts_loop maxCount
             (threadCounts @ [min (last threadCounts * 2) maxCount])
      else Some threadCounts)"

declare buildThreadCounts_loop.simps [code]

definition buildThreadCounts :: "c_unsigned \<Rightarrow> c_unsigned list option" where
  "buildThreadCounts maxCount = buildThreadCounts_loop maxCount [1]"

text \<open>
  Every element but possibly the last is the double of its predecessor (\<open>k = 1\<close>), or
  every element is (\<open>k = 0\<close>).
\<close>

definition doubling :: "nat \<Rightarrow> c_unsigned list \<Rightarrow> bool" where
  "doubling k xs = list_all (\<lambda>i. xs ! Suc i = 2 * xs ! i) [0..<length xs - 1 - k]"

section \<open>The command line\<close>

text \<open>
  \<^verbatim>\<open>std::stoi\<close> belongs to the C++ standard library, not to the repository. It is
  modelled as the standard describes it (\<^verbatim>\<open>strtol\<close> with base 10): leading white
  space is skipped, an optional sign is read, then the longest run of decimal digits;
  when there is no digit it throws \<^verbatim>\<open>std::invalid_argument\<close>, when the number does
  not fit an \<^verbatim>\<open>int\<close> it throws \<^verbatim>\<open>std::out_of_range\<close>; what follows the digits is
  ignored.
\<close>

datatype stoi_error = Invalid_argument | Out_of_range

definition isspace :: "char \<Rightarrow> bool" where
  "isspace c = (c = CHR '' '' \<or> (9 \<le> (of_char c :: nat) \<and> (of_char c :: nat) \<le> 13))"

definition isdigit :: "char \<Rightarrow> bool" where
  "isdigit c = (48 \<le> (of_char c :: nat) \<and> (of_char c :: nat) \<le> 57)"

fun digits_value :: "nat \<Rightarrow> string \<Rightarrow> nat" where
  "digits_value acc [] = acc"
| "digits_value acc (c # cs) = digits_value (10 * acc + (of_char c - 48)) cs"

definition stoi :: "string \<Rightarrow> stoi_error + c_int" where
  "stoi str =
     (let s = dropWhile isspace str;
          negative = (s \<noteq> [] \<and> hd s = CHR ''-'');
          s = (if s \<noteq> [] \<and> (hd s = CHR ''-'' \<or> hd s = CHR ''+'') then tl s else s);
          ds = takeWhile isdigit s;
          v = (if negative then - int (digits_value 0 ds) else int (digits_value 0 ds))
      in if ds = [] then Inl Invalid_argument
         else if v < - 2147483648 \<or> 2147483647 < v then Inl Out_of_range
         else Inr (word_of_int v))"

text \<open>
  \<^verbatim>\<open>
  static std::vector<unsigned> interpretThreadCounts(std::string desc) {
     std::vector<unsigned> threadCounts;
     auto add = [&](const std::string& desc) {
        unsigned c = std::stoi(desc);
        if (c) threadCounts.push_back(c);
     };
     while (desc.find(' ') != std::string::npos) {
        auto split = desc.find(' ');
        add(desc.substr(0, split));
        desc = desc.substr(split + 1);
     }
     add(desc);
     return threadCounts;
  }
  \<close>
  Nothing catches what \<^verbatim>\<open>std::stoi\<close> throws: the exception leaves the function (and
  then \<^verbatim>\<open>main\<close>). \<open>find_char c s\<close> is \<^verbatim>\<open>s.find(c)\<close>, with \<open>None\<close> for \<^verbatim>\<open>npos\<close>.
\<close>

fun find_char :: "char \<Rightarrow> string \<Rightarrow> nat option" where
  "find_char c [] = None"
| "find_char c (x # xs) = (if x = c then Some 0 else map_option Suc (find_char c xs))"

definition add :: "string \<Rightarrow> c_unsigned list \<Rightarrow> stoi_error + c_unsigned list" where
  "add desc threadCounts =
     (case stoi desc of
        Inl e \<Rightarrow> Inl e
      | Inr c \<Rightarrow> Inr (if c \<noteq> 0 then threadCounts @ [c] else threadCounts))"

function interpret_loop :: "string \<Rightarrow> c_unsigned list \<Rightarrow> stoi_error + c_unsigned list" where
  "interpret_loop desc threadCounts =
     (case find_char CHR '' '' desc of
        None \<Rightarrow> add desc threadCounts
      | Some split \<Rightarrow>
          (case add (take split desc) threadCounts of
             Inl e \<Rightarrow> Inl e
           | Inr threadCounts' \<Rightarrow> interpret_loop (drop (split + 1) desc) threadCounts'))"
  by pat_completeness auto
termination
proof (relation "measure (\<lambda>(desc, threadCounts). length desc)")
  show "wf (measure (\<lambda>(desc, threadCounts). length desc))"
    by simp
next
  fix desc :: string and threadCounts threadCounts' :: "c_unsigned list" and split :: nat
  assume "find_char CHR '' '' desc = Some split"
  then have "desc \<noteq> []"
    by auto
  then show "((drop (split + 1) desc, threadCounts'), desc, threadCounts)
      \<in> measure (\<lambda>(desc, threadCounts). length desc)"
    by simp
qed

definition interpretThreadCounts :: "string \<Rightarrow> stoi_error + c_unsigned list" where
  "interpretThreadCounts desc = interpret_loop desc []"

text \<open>
  The argument loop of \<^verbatim>\<open>main\<close>, over \<^verbatim>\<open>argv[1]\<close>, ..., starting from the default
  list:
  \<^verbatim>\<open>
  for (int index = 1; index < argc; ++index) {
     std::string o = argv[index];
     if ((o == "--threads") && (index + 1 < argc)) {
        threadCounts = interpretThreadCounts(argv[++index]);
     } else {
        std::cout << "unknown option " << o << std::endl;
        return 1;
     }
  }
  \<close>
  The loop ends in one of three ways: \<^verbatim>\<open>main\<close> returns 1 after the line on the output
  stream; an exception of \<^verbatim>\<open>std::stoi\<close> leaves \<^verbatim>\<open>main\<close> uncaught and the process is
  terminated; or the arguments are used up and \<^verbatim>\<open>main\<close> goes on to initialise LLVM and
  run the tests with the list.
\<close>

datatype main_stop = Return (exit_status: nat) (stdout_line: string) | Uncaught stoi_error

fun main_arguments :: "string list \<Rightarrow> c_unsigned list \<Rightarrow> main_stop + c_unsigned list" where
  "main_arguments [] threadCounts = Inr threadCounts"
| "main_arguments [opt] threadCounts = Inl (Return 1 (''unknown option '' @ opt))"
| "main_arguments (opt # v # args) threadCounts =
     (if opt = ''--threads'' then
        (case interpretThreadCounts v of
           Inl e \<Rightarrow> Inl (Uncaught e)
         | Inr threadCounts' \<Rightarrow> main_arguments args threadCounts')
      else Inl (Return 1 (''unknown option '' @ opt)))"

text \<open>
  For stating what a well-formed value of \<^verbatim>\<open>--threads\<close> is: tokens joined by single
  spaces, each a decimal numeral that fits an \<^verbatim>\<open>int\<close>.
\<close>

fun join_spaces :: "string list \<Rightarrow> string" where
  "join_spaces [] = []"
| "join_spaces [t] = t"
| "join_spaces (t # ts) = t @ CHR '' '' # join_spaces ts"

definition numeral_token :: "string \<Rightarrow> bool" where
  "numeral_token t = (t \<noteq> [] \<and> list_all isdigit t \<and> digits_value 0 t \<le> 2147483647)"

text \<open>
  The list a well-formed value stands for, and a command line that starts with
  well-formed \<^verbatim>\<open>--threads\<close> options.
\<close>

definition parsed :: "string list \<Rightarrow> c_unsigned list" where
  "parsed tokens = filter (\<lambda>c. c \<noteq> 0) (map (\<lambda>t. of_nat (digits_value 0 t)) tokens)"

definition well_formed :: "string list \<Rightarrow> bool" where
  "well_formed tokens = (tokens \<noteq> [] \<and> list_all numeral_token tokens)"

fun threads_options :: "string list list \<Rightarrow> string list" where
  "threads_options [] = []"
| "threads_options (tokens # vals) = ''--threads'' # join_spaces tokens # threads_options vals"


section \<open>Facts about 32-bit arithmetic\<close>

lemma sint_of_int_32:
  "- 2147483648 \<le> k \<Longrightarrow> k \<le> 2147483647 \<Longrightarrow> sint (word_of_int k :: c_int) = k"
  by (simp add: sint_sbintrunc' signed_take_bit_int_eq_self)

lemma sint_range_32: "- 2147483648 \<le> sint (v :: c_int) \<and> sint v \<le> 2147483647"
  using sint_lt [of v] sint_ge [of v] by simp

lemma and_1_odd: "(v :: c_int) AND 1 \<noteq> 0 \<longleftrightarrow> odd (sint v)"
  by (metis even_of_int_iff even_word_def even_word_iff of_int_sint scast_id)

lemma sint_3v1:
  "1 \<le> sint v \<Longrightarrow> 3 * sint v + 1 \<le> 2147483647 \<Longrightarrow> sint (3 * v + 1 :: c_int) = 3 * sint v + 1"
  by (simp add: sint_word_ariths signed_take_bit_int_eq_self)

lemma sdiv_2_nonneg: "0 \<le> (k :: int) \<Longrightarrow> k sdiv 2 = k div 2"
  by (simp add: signed_divide_int_def sgn_if)

lemma sint_int_div_2: "1 \<le> sint (v :: c_int) \<Longrightarrow> sint (int_div v 2) = sint v div 2"
proof -
  assume a: "1 \<le> sint v"
  have b: "sint v \<le> 2147483647" using sint_range_32 [of v] by simp
  have "sint (word_of_int (sint v div 2) :: c_int) = sint v div 2"
    using a b by (intro sint_of_int_32) auto
  then show ?thesis using a
    by (simp add: int_div_def sdiv_2_nonneg)
qed

section \<open>The callback against the oracle\<close>

text \<open>
  C1, as stated: for every \<open>v < 1\<close> the callback throws \<open>v\<close>; for every \<open>v \<ge> 1\<close> it
  returns \<open>3v + 1\<close> when \<open>v\<close> is odd and \<open>v / 2\<close> when \<open>v\<close> is even. The statement fails
  for the odd \<open>v\<close> above 715827882: \<open>3v + 1\<close> is then larger than any \<^verbatim>\<open>int\<close>. At
  \<open>v = 715827883\<close> the oracle's value is 2147483650 and the wrapped product is
  -2147483646.
\<close>

theorem callback_overflow_counterexample:
  "observed (callback 715827883) = Yields (- 2147483646) \<and>
   oracle_spec (sint (715827883 :: c_int)) = Yields 2147483650 \<and>
   observed (callback 715827883) \<noteq> oracle_spec (sint (715827883 :: c_int))"
  by (simp add: callback_def oracle_spec_def word_sless_alt)

text \<open>
  C1, amended: for every \<^verbatim>\<open>int\<close> \<open>v < 1\<close> the callback throws exactly \<open>v\<close>, and for
  every \<open>v \<ge> 1\<close> that is even, or odd with \<open>3v + 1 \<le> 2147483647\<close>, it returns and
  its value is \<open>v / 2\<close>, respectively \<open>3v + 1\<close>: on all these inputs the callback does
  what the oracle of the specification says.
\<close>

theorem callback_oracle:
  "(sint v < 1 \<longrightarrow> callback v = Thrown v) \<and>
   (sint v < 1 \<or> even (sint v) \<or> 3 * sint v + 1 \<le> 2147483647 \<longrightarrow>
      observed (callback v) = oracle_spec (sint v))"
  by (auto simp: callback_def oracle_spec_def word_sless_alt and_1_odd sint_3v1 sint_int_div_2)

theorem callback_oracle_witness:
  "callback (- 5) = Thrown (- 5) \<and> observed (callback 7) = Yields 22 \<and>
   observed (callback 715827882) = Yields 357913941 \<and>
   observed (callback 715827881) = Yields 2147483644"
  using callback_oracle [of "- 5"] callback_oracle [of 7] callback_oracle [of 715827882]
    callback_oracle [of 715827881]
  by (simp add: oracle_spec_def)

section \<open>The check helper decides as specified\<close>

text \<open>
  C2: whatever the compiled code does, when the invocation returns \<open>r\<close> the check is
  fatal (a report on the error stream and exit status 1) exactly when \<open>r\<close> is negative
  or differs from \<open>expected\<close>; when the invocation throws, the check is fatal exactly
  when \<open>expected \<ge> 0\<close>; a check that is not fatal returns \<open>true\<close>.
\<close>

theorem doTest_fatal_iff:
  "(invoke jitCode callback input = Returned r \<longrightarrow>
      (doTest jitCode input expected =
         (if sint r < 0 \<or> r \<noteq> expected
          then Inl (Exit 1 (Unexpected_result input expected (Got_value r)))
          else Inr True))) \<and>
   (invoke jitCode callback input = Thrown e \<longrightarrow>
      (doTest jitCode input expected =
         (if 0 \<le> sint expected
          then Inl (Exit 1 (Unexpected_result input expected Got_exception))
          else Inr True))) \<and>
   (\<forall>x. doTest jitCode input expected = Inl x \<longrightarrow> status x \<noteq> 0) \<and>
   (\<forall>b. doTest jitCode input expected = Inr b \<longrightarrow> b)"
  by (auto simp: doTest_def word_sless_alt word_sle_eq split: outcome.splits if_splits)

theorem doTest_fatal_iff_witness:
  "doTest JITContainer_foo 2 1 = Inr True \<and>
   doTest JITContainer_foo 2 4 = Inl (Exit 1 (Unexpected_result 2 4 (Got_value 1))) \<and>
   doTest JITContainer_foo 0 (- 1) = Inr True \<and>
   doTest JITContainer_foo 0 0 = Inl (Exit 1 (Unexpected_result 0 0 Got_exception))"
proof -
  have r: "invoke JITContainer_foo callback 2 = Returned 1"
    by (simp add: invoke_def JITContainer_foo_def foo_def callback_def int_div_def
        word_sless_alt signed_divide_int_def)
  have t: "invoke JITContainer_foo callback 0 = Thrown 0"
    by (simp add: invoke_def JITContainer_foo_def foo_def callback_def word_sless_alt)
  show ?thesis
    using doTest_fatal_iff [of JITContainer_foo 2 1 1 0]
      doTest_fatal_iff [of JITContainer_foo 2 1 4 0]
      doTest_fatal_iff [of JITContainer_foo 0 0 "- 1" 0]
      doTest_fatal_iff [of JITContainer_foo 0 0 0 0] r t
    by simp
qed

section \<open>The inline expected value is the callback's value\<close>

text \<open>
  C3: the expected value the stress loop computes is the value the callback returns, for
  every \<open>arg \<ge> 1\<close> (both are the same 32-bit computation, so also where \<open>3 * arg + 1\<close>
  wraps), and it is the sentinel -1 for every \<open>arg < 1\<close>, where the callback throws; the
  sentinel is negative, which is what the check helper reads as "exception expected".
\<close>

theorem expected_of_callback:
  "(1 \<le> sint arg \<longrightarrow> callback arg = Returned (expected_of arg)) \<and>
   (sint arg < 1 \<longrightarrow> expected_of arg = - 1 \<and> sint (expected_of arg) < 0 \<and>
      callback arg = Thrown arg)"
  by (simp add: callback_def expected_of_def word_sless_alt)

theorem expected_of_callback_witness:
  "callback 7 = Returned (expected_of 7) \<and> expected_of 7 = 22 \<and>
   expected_of 0 = - 1 \<and> callback 0 = Thrown 0"
  using expected_of_callback [of 7] expected_of_callback [of 0]
  by (simp add: expected_of_def word_sless_alt)

section \<open>The generator\<close>

lemma Random_draw_xorshift:
  "Random_draw rnd = (xorshift (state rnd) * multiplier, \<lparr>state = xorshift (state rnd)\<rparr>)"
  by (simp add: Random_draw_def xorshift_def multiplier_def Let_def)

lemma draws_state:
  "draws n rnd = map (\<lambda>k. (xorshift ^^ Suc k) (state rnd) * multiplier) [0..<n]"
proof (induction n arbitrary: rnd)
  case 0
  then show ?case by simp
next
  case (Suc n)
  have "[0..<Suc n] = 0 # map Suc [0..<n]"
    by (simp add: upt_conv_Cons map_Suc_upt del: upt_Suc)
  then show ?case
    by (simp add: Suc.IH Random_draw_xorshift funpow_swap1 del: upt_Suc)
qed

text \<open>
  C4: the constructor sets the state to \<open>(seed << 1) | 1\<close>; a draw applies the three
  shift-xor steps to the state, stores the result as the new state and returns it
  multiplied by 0x2545F4914F6CDD1D; hence the \<open>k\<close>-th draw of a generator is determined
  by its seed, and generators made from the same seed draw the same sequence.
\<close>

theorem Random_deterministic:
  "state (Random_init seed) = push_bit 1 seed OR 1 \<and>
   xorshift x = ((x XOR drop_bit 12 x) XOR push_bit 25 (x XOR drop_bit 12 x)) XOR
     drop_bit 27 ((x XOR drop_bit 12 x) XOR push_bit 25 (x XOR drop_bit 12 x)) \<and>
   state (snd (Random_draw rnd)) = xorshift (state rnd) \<and>
   fst (Random_draw rnd) = xorshift (state rnd) * 0x2545F4914F6CDD1D \<and>
   draws n (Random_init seed) =
     map (\<lambda>k. (xorshift ^^ Suc k) (push_bit 1 seed OR 1) * 0x2545F4914F6CDD1D) [0..<n] \<and>
   (seed = seed' \<longrightarrow> draws n (Random_init seed) = draws n (Random_init seed'))"
  by (simp add: Random_draw_xorshift draws_state Random_init_def xorshift_def Let_def
      multiplier_def)

theorem Random_deterministic_witness:
  "state (Random_init 5) = 11 \<and> xorshift 11 = 369098761 \<and>
   draws 2 (Random_init 0) = [5180492295206395165, 12380297144915551517] \<and>
   draws 2 (Random_init 0) = draws 2 (Random_init 0)"
proof -
  have "state (Random_init 5) = 11" "xorshift 11 = 369098761"
    "draws 2 (Random_init 0) = [5180492295206395165, 12380297144915551517]"
    by code_simp+
  then show ?thesis
    using Random_deterministic [of 5 11 "Random_init 0" 2 0] by simp
qed

section \<open>The argument of an invocation\<close>

lemma error_branch_unat:
  "(r mod 1000 < (ucast (errorRate :: c_unsigned) :: uint64_t)) \<longleftrightarrow>
     unat r mod 1000 < unat errorRate"
proof -
  have "unat (ucast errorRate :: uint64_t) = unat errorRate"
    using unsigned_less [of errorRate, where 'a = nat]
    by (simp add: unsigned_ucast_eq take_bit_eq_mod)
  then show ?thesis
    by (simp add: word_less_nat_alt unat_mod)
qed

lemma unat_and_ffff: "unat ((r :: uint64_t) AND 0xFFFF) = unat r mod 65536"
proof -
  have "(0xFFFF :: uint64_t) = mask 16"
    by (simp add: mask_eq_exp_minus_1)
  then have "r AND 0xFFFF = take_bit 16 r"
    by (simp only: take_bit_eq_mask)
  then have "unat (r AND 0xFFFF) = take_bit 16 (unat r)"
    by (simp only: unsigned_take_bit_eq)
  then show ?thesis
    by (simp add: take_bit_eq_mod)
qed

lemma unat_low_plus_1: "unat (((r :: uint64_t) AND 0xFFFF) + 1) = unat r mod 65536 + 1"
proof -
  have "unat r mod 65536 < 65536" by simp
  then have "unat r mod 65536 + 1 < 2 ^ 64" by simp
  then show ?thesis
    by (simp add: unat_word_ariths unat_and_ffff)
qed

lemma test_arg_error: "r mod 1000 < ucast errorRate \<Longrightarrow> test_arg errorRate r = - 1"
proof -
  have "(ucast (- 1 :: uint64_t) :: c_int) = - 1"
    by code_simp
  then show "r mod 1000 < ucast errorRate \<Longrightarrow> test_arg errorRate r = - 1"
    by (simp add: test_arg_def)
qed

lemma unat_test_arg:
  assumes "\<not> r mod 1000 < ucast errorRate"
  shows "unat (test_arg errorRate r) = unat r mod 65536 + 1"
proof -
  have "unat r mod 65536 < 65536" by simp
  then have "unat r mod 65536 + 1 < 2 ^ 32" by simp
  then show ?thesis using assms
    by (simp add: test_arg_def unsigned_ucast_eq take_bit_eq_mod unat_low_plus_1)
qed

lemma sint_unat_small: "unat (w :: c_int) < 2147483648 \<Longrightarrow> sint w = int (unat w)"
proof -
  assume a: "unat w < 2147483648"
  then have "uint w < 2147483648"
    by (metis of_nat_less_numeral_iff of_nat_unat)
  then have b: "uint w < 2 ^ 31" by simp
  have c: "- (2 ^ 31) \<le> uint w"
    by (rule order_trans [of _ 0]) simp_all
  have "sint w = signed_take_bit 31 (uint w)"
    by (simp add: sint_uint)
  also have "\<dots> = uint w"
    using c b by (rule signed_take_bit_int_eq_self)
  finally show ?thesis by simp
qed

lemma sint_test_arg:
  assumes "\<not> r mod 1000 < ucast errorRate"
  shows "sint (test_arg errorRate r) = int (unat r mod 65536) + 1"
proof -
  have "unat r mod 65536 < 65536" by simp
  then have "unat (test_arg errorRate r) < 2147483648"
    by (simp add: unat_test_arg [OF assms])
  then show ?thesis
    by (simp add: sint_unat_small unat_test_arg [OF assms])
qed

section \<open>The loops of a pass\<close>

declare inner_loop.simps [simp del] outer_loop.simps [simp del]

lemma unat_diff_Suc:
  "(i :: c_unsigned) \<noteq> n \<Longrightarrow> unat (n - i) = Suc (unat (n - (i + 1)))"
proof -
  assume "i \<noteq> n"
  then have nz: "n - i \<noteq> 0" by simp
  then have "0 < unat (n - i)" by (simp add: unat_gt_0)
  moreover have "unat (n - i - 1) = unat (n - i) - 1"
    using unat_minus_one [OF nz] by simp
  moreover have "n - i - 1 = n - (i + 1)" by simp
  ultimately show ?thesis by simp
qed

lemma doTest_returns_True: "doTest jitCode input expected = Inr b \<Longrightarrow> b"
  by (auto simp: doTest_def split: outcome.splits if_splits)

lemma doTest_exit_status: "doTest jitCode input expected = Inl ex \<Longrightarrow> status ex = 1"
  by (auto simp: doTest_def split: outcome.splits if_splits)

lemma draws_Suc_map: "map f (draws (Suc n) rnd) = f (fst (Random_draw rnd)) # map f (draws n (snd (Random_draw rnd)))"
  by simp

lemma inner_loop_Inr:
  "inner_loop jitCode errorRate index st = Inr st' \<Longrightarrow>
     trace st' = trace st @ map (test_case errorRate) (draws (unat (repeat - index)) (random st)) \<and>
     random st' = skip (unat (repeat - index)) (random st) \<and>
     result st' = result st + (repeat - index)"
proof (induction jitCode errorRate index st rule: inner_loop.induct)
  case (1 jitCode errorRate index st)
  show ?case
  proof (cases "index = repeat")
    case True
    with "1.prems" show ?thesis
      by (simp add: inner_loop.simps)
  next
    case False
    define d where "d = Random_draw (random st)"
    define arg where "arg = test_arg errorRate (fst d)"
    obtain b where b: "doTest jitCode arg (expected_of arg) = Inr b"
      and rec: "inner_loop jitCode errorRate (index + 1)
           (st\<lparr>random := snd d, result := result st + of_bool b,
               trace := trace st @ [Invoke arg (expected_of arg)]\<rparr>) = Inr st'"
      using "1.prems" False
      by (subst (asm) inner_loop.simps) (auto simp: Let_def d_def arg_def split: sum.splits)
    have bt: "b" using b by (rule doTest_returns_True)
    note IH = "1.IH" [OF False d_def arg_def refl b rec]
    show ?thesis
      using IH bt
      by (simp add: unat_diff_Suc [OF False] d_def arg_def test_case_def)
  qed
qed

lemma inner_loop_Inl:
  "inner_loop jitCode errorRate index st = Inl ex \<Longrightarrow> status ex = 1"
proof (induction jitCode errorRate index st rule: inner_loop.induct)
  case (1 jitCode errorRate index st)
  show ?case
  proof (cases "index = repeat")
    case True
    with "1.prems" show ?thesis
      by (simp add: inner_loop.simps)
  next
    case False
    define d where "d = Random_draw (random st)"
    define arg where "arg = test_arg errorRate (fst d)"
    show ?thesis
    proof (cases "doTest jitCode arg (expected_of arg)")
      case (Inl ex')
      then have "ex' = ex" using "1.prems" False
        by (subst (asm) inner_loop.simps) (simp add: Let_def d_def arg_def)
      with Inl show ?thesis by (simp add: doTest_exit_status)
    next
      case (Inr b)
      then have rec: "inner_loop jitCode errorRate (index + 1)
           (st\<lparr>random := snd d, result := result st + of_bool b,
               trace := trace st @ [Invoke arg (expected_of arg)]\<rparr>) = Inl ex"
        using "1.prems" False
        by (subst (asm) inner_loop.simps) (simp add: Let_def d_def arg_def)
      show ?thesis
        by (rule "1.IH" [OF False d_def arg_def refl Inr rec])
    qed
  qed
qed

lemma callback_expected_of: "\<not> arg <s 1 \<Longrightarrow> callback arg = Returned (expected_of arg)"
  by (simp add: callback_def expected_of_def)

lemma expected_of_nonneg:
  assumes "1 \<le> sint arg" "sint arg \<le> 65536"
  shows "0 \<le> sint (expected_of arg)"
proof (cases "arg AND 1 \<noteq> 0")
  case True
  have "sint (3 * arg + 1) = 3 * sint arg + 1"
    using assms by (intro sint_3v1) simp_all
  then show ?thesis using assms True
    by (simp add: expected_of_def word_sless_alt)
next
  case False
  then show ?thesis using assms
    by (simp add: expected_of_def word_sless_alt sint_int_div_2)
qed

lemma doTest_foo_passes:
  "doTest JITContainer_foo (test_arg errorRate r) (expected_of (test_arg errorRate r)) = Inr True"
proof (cases "r mod 1000 < ucast errorRate")
  case True
  have "doTest JITContainer_foo (- 1) (expected_of (- 1)) = Inr True"
    by (simp add: doTest_def invoke_def JITContainer_foo_def foo_def callback_def
        expected_of_def word_sless_alt word_sle_eq)
  then show ?thesis
    by (simp add: test_arg_error [OF True])
next
  case False
  define arg where "arg = test_arg errorRate r"
  have s: "sint arg = int (unat r mod 65536) + 1"
    unfolding arg_def by (rule sint_test_arg [OF False])
  have "unat r mod 65536 < 65536" by simp
  then have range: "1 \<le> sint arg" "sint arg \<le> 65536"
    using s by simp_all
  then have "\<not> arg <s 1"
    by (simp add: word_sless_alt)
  then have "callback arg = Returned (expected_of arg)"
    by (rule callback_expected_of)
  moreover have "\<not> expected_of arg <s 0"
    using expected_of_nonneg [OF range] by (simp add: word_sless_alt)
  ultimately have "doTest JITContainer_foo arg (expected_of arg) = Inr True"
    by (simp add: doTest_def invoke_def JITContainer_foo_def foo_def)
  then show ?thesis
    by (simp add: arg_def)
qed

lemma inner_loop_foo:
  "\<exists>st'. inner_loop JITContainer_foo errorRate index st = Inr st'"
proof (induction JITContainer_foo errorRate index st rule: inner_loop.induct)
  case (1 errorRate index st)
  show ?case
  proof (cases "index = repeat")
    case True
    then show ?thesis
      by (simp add: inner_loop.simps)
  next
    case False
    define d where "d = Random_draw (random st)"
    define arg where "arg = test_arg errorRate (fst d)"
    have p: "doTest JITContainer_foo arg (expected_of arg) = Inr True"
      unfolding arg_def by (rule doTest_foo_passes)
    from "1.hyps" [OF False d_def arg_def refl p]
    obtain st' where "inner_loop JITContainer_foo errorRate (index + 1)
           (st\<lparr>random := snd d, result := result st + of_bool True,
               trace := trace st @ [Invoke arg (expected_of arg)]\<rparr>) = Inr st'"
      by blast
    then show ?thesis
      using False p
      by (subst inner_loop.simps) (simp add: Let_def d_def arg_def)
  qed
qed

lemma skip_add: "skip (m + n) rnd = skip n (skip m rnd)"
  by (induction m arbitrary: rnd) simp_all

lemma unat_repeat: "unat repeat = 10000"
  by (simp add: repeat_def)

lemma outer_loop_Inr:
  "outer_loop compile errorRate pass st = Inr st' \<Longrightarrow>
     trace st' = trace st @
       concat (map (unit_trace errorRate (random st)) [0..<unat (functionRepeat - pass)]) \<and>
     random st' = skip (10000 * unat (functionRepeat - pass)) (random st) \<and>
     result st' = result st + 10000 * (functionRepeat - pass)"
proof (induction compile errorRate pass st rule: outer_loop.induct)
  case (1 compile errorRate pass st)
  show ?case
  proof (cases "pass = functionRepeat")
    case True
    with "1.prems" show ?thesis
      by (simp add: outer_loop.simps)
  next
    case False
    obtain st1 where inner: "inner_loop (compile pass) errorRate 0
          (st\<lparr>trace := trace st @ [Construct]\<rparr>) = Inr st1"
      and rec: "outer_loop compile errorRate (pass + 1)
          (st1\<lparr>trace := trace st1 @ [Destruct]\<rparr>) = Inr st'"
      using "1.prems" False
      by (subst (asm) outer_loop.simps) (auto split: sum.splits)
    note I = inner_loop_Inr [OF inner]
    note IH = "1.IH" [OF False inner rec]
    have up: "[0..<Suc n] = 0 # map Suc [0..<n]" for n
      by (simp add: upt_conv_Cons map_Suc_upt del: upt_Suc)
    have ut: "unit_trace errorRate (skip 10000 rnd) k = unit_trace errorRate rnd (Suc k)" for k rnd
      using skip_add [of 10000 "10000 * k" rnd] by (simp add: unit_trace_def)
    have u0: "unit_trace errorRate rnd 0 =
        Construct # map (test_case errorRate) (draws 10000 rnd) @ [Destruct]" for rnd
      by (simp add: unit_trace_def)
    have list: "map (unit_trace errorRate (random st)) [0..<Suc n] =
        unit_trace errorRate (random st) 0 #
        map (unit_trace errorRate (skip 10000 (random st))) [0..<n]" for n
      by (simp add: up ut comp_def del: upt_Suc)
    have res: "10000 * (functionRepeat - pass) = 10000 + 10000 * (functionRepeat - (pass + 1))"
      by (simp add: algebra_simps)
    have sk: "skip (10000 + 10000 * k) rnd = skip (10000 * k) (skip 10000 rnd)" for k rnd
      using skip_add [of 10000 "10000 * k" rnd] by simp
    have I': "trace st1 = trace st @ Construct # map (test_case errorRate) (draws 10000 (random st))"
      "random st1 = skip 10000 (random st)" "result st1 = result st + 10000"
      using I by (simp_all add: unat_repeat) (simp add: repeat_def)
    show ?thesis
      using IH
      by (simp add: I' unat_diff_Suc [OF False] list u0 sk res del: upt_Suc)
  qed
qed

declare spawn_loop.simps [simp del]

lemma outer_loop_Inl:
  "outer_loop compile errorRate pass st = Inl ex \<Longrightarrow> status ex = 1"
proof (induction compile errorRate pass st rule: outer_loop.induct)
  case (1 compile errorRate pass st)
  show ?case
  proof (cases "pass = functionRepeat")
    case True
    with "1.prems" show ?thesis
      by (simp add: outer_loop.simps)
  next
    case False
    show ?thesis
    proof (cases "inner_loop (compile pass) errorRate 0 (st\<lparr>trace := trace st @ [Construct]\<rparr>)")
      case (Inl ex')
      then have "ex' = ex" using "1.prems" False
        by (subst (asm) outer_loop.simps) simp
      with Inl show ?thesis by (simp add: inner_loop_Inl)
    next
      case (Inr st1)
      then have rec: "outer_loop compile errorRate (pass + 1)
          (st1\<lparr>trace := trace st1 @ [Destruct]\<rparr>) = Inl ex"
        using "1.prems" False
        by (subst (asm) outer_loop.simps) simp
      show ?thesis
        by (rule "1.IH" [OF False Inr rec])
    qed
  qed
qed

lemma outer_loop_foo:
  "\<exists>st'. outer_loop (\<lambda>pass. JITContainer_foo) errorRate pass st = Inr st'"
proof (induction "\<lambda>pass :: c_unsigned. JITContainer_foo" errorRate pass st rule: outer_loop.induct)
  case (1 errorRate pass st)
  show ?case
  proof (cases "pass = functionRepeat")
    case True
    then show ?thesis
      by (simp add: outer_loop.simps)
  next
    case False
    obtain st1 where inner: "inner_loop JITContainer_foo errorRate 0
          (st\<lparr>trace := trace st @ [Construct]\<rparr>) = Inr st1"
      using inner_loop_foo by blast
    from "1.hyps" [OF False inner]
    obtain st' where "outer_loop (\<lambda>pass. JITContainer_foo) errorRate (pass + 1)
          (st1\<lparr>trace := trace st1 @ [Destruct]\<rparr>) = Inr st'"
      by blast
    then show ?thesis
      using False inner
      by (subst outer_loop.simps) simp
  qed
qed

lemma unat_functionRepeat: "unat functionRepeat = 10"
  by (simp add: functionRepeat_def)

lemma doTest_pass_Inr:
  assumes "doTest_pass compile errorRate seed = Inr (st, err)"
  shows "trace st = concat (map (unit_trace errorRate (Random_init (ucast seed))) [0..<10])"
    and "random st = skip 100000 (Random_init (ucast seed))"
    and "result st = 100000" and "err = []"
proof -
  from assms have ol: "outer_loop compile errorRate 0
      \<lparr>random = Random_init (ucast seed), result = 0, trace = []\<rparr> = Inr st"
    and err: "err = (if result st = 0 then [Invalid_result] else [])"
    by (auto simp: doTest_pass_def split: sum.splits)
  note O = outer_loop_Inr [OF ol]
  show "trace st = concat (map (unit_trace errorRate (Random_init (ucast seed))) [0..<10])"
    using O by (simp add: unat_functionRepeat)
  show "random st = skip 100000 (Random_init (ucast seed))"
    using O by (simp add: unat_functionRepeat)
  show r: "result st = 100000"
    using O by (simp add: functionRepeat_def)
  show "err = []"
    using err r by simp
qed

lemma doTest_pass_Inl: "doTest_pass compile errorRate seed = Inl ex \<Longrightarrow> status ex = 1"
  by (auto simp: doTest_pass_def outer_loop_Inl split: sum.splits)

lemma doTest_pass_foo: "\<exists>st. doTest_pass (\<lambda>pass. JITContainer_foo) errorRate seed = Inr (st, [])"
proof -
  obtain st where ol: "outer_loop (\<lambda>pass. JITContainer_foo) errorRate 0
      \<lparr>random = Random_init (ucast seed), result = 0, trace = []\<rparr> = Inr st"
    using outer_loop_foo by blast
  then obtain err where p: "doTest_pass (\<lambda>pass. JITContainer_foo) errorRate seed = Inr (st, err)"
    by (simp add: doTest_pass_def)
  then have "err = []" by (rule doTest_pass_Inr(4))
  with p show ?thesis by blast
qed

lemma length_draws: "length (draws n rnd) = n"
  by (induction n arbitrary: rnd) simp_all

section \<open>The derived test input\<close>

text \<open>
  C5: for every draw \<open>r\<close> and error rate, the argument is -1 when
  \<open>r mod 1000 < errorRate\<close> and otherwise \<open>(r & 0xFFFF) + 1\<close>, which lies in
  \<open>[1, 65536]\<close>; every iteration of the inner loop makes one draw and computes the
  expected value from the argument it derived from that draw: the invocations of a
  completed inner loop are the test cases of the next 10000 draws, in order, and the
  generator has advanced by exactly those 10000 draws.
\<close>

theorem test_arg_range:
  "(unat r mod 1000 < unat errorRate \<longrightarrow> sint (test_arg errorRate r) = - 1) \<and>
   (\<not> unat r mod 1000 < unat errorRate \<longrightarrow>
      sint (test_arg errorRate r) = int (unat (r AND 0xFFFF)) + 1 \<and>
      1 \<le> sint (test_arg errorRate r) \<and> sint (test_arg errorRate r) \<le> 65536) \<and>
   test_case errorRate r = Invoke (test_arg errorRate r) (expected_of (test_arg errorRate r)) \<and>
   (inner_loop jitCode errorRate 0 st = Inr st' \<longrightarrow>
      trace st' = trace st @ map (test_case errorRate) (draws 10000 (random st)) \<and>
      random st' = skip 10000 (random st))"
proof -
  have a: "sint (test_arg errorRate r) = - 1" if "unat r mod 1000 < unat errorRate"
    using that by (simp add: test_arg_error error_branch_unat)
  have b: "sint (test_arg errorRate r) = int (unat (r AND 0xFFFF)) + 1"
    if "\<not> unat r mod 1000 < unat errorRate"
    using that by (simp add: sint_test_arg error_branch_unat unat_and_ffff)
  have "unat r mod 65536 < 65536" by simp
  then have c: "int (unat (r AND 0xFFFF)) + 1 \<le> 65536"
    by (simp add: unat_and_ffff)
  have d: "trace st' = trace st @ map (test_case errorRate) (draws 10000 (random st)) \<and>
      random st' = skip 10000 (random st)"
    if "inner_loop jitCode errorRate 0 st = Inr st'"
    using inner_loop_Inr [OF that] by (simp add: unat_repeat)
  show ?thesis
    using a b c d by (simp add: test_case_def)
qed

theorem test_arg_range_witness:
  "sint (test_arg 10 5) = - 1 \<and>
   sint (test_arg 100 5180492295206395165) = 56606 \<and>
   (\<exists>st'. inner_loop JITContainer_foo 0 0
             \<lparr>random = Random_init 0, result = 0, trace = []\<rparr> = Inr st' \<and>
          trace st' = map (test_case 0) (draws 10000 (Random_init 0)) \<and>
          random st' = skip 10000 (Random_init 0))"
proof -
  have e: "unat (5 :: uint64_t) mod 1000 < unat (10 :: c_unsigned)"
    "\<not> unat (5180492295206395165 :: uint64_t) mod 1000 < unat (100 :: c_unsigned)"
    "int (unat ((5180492295206395165 :: uint64_t) AND 0xFFFF)) + 1 = 56606"
    by simp_all
  obtain st' where i: "inner_loop JITContainer_foo 0 0
      \<lparr>random = Random_init 0, result = 0, trace = []\<rparr> = Inr st'"
    using inner_loop_foo by blast
  show ?thesis
    using e test_arg_range [of 5 10 JITContainer_foo "\<lparr>random = Random_init 0, result = 0, trace = []\<rparr>" st']
      test_arg_range [of 5180492295206395165 100 JITContainer_foo
        "\<lparr>random = Random_init 0, result = 0, trace = []\<rparr>" st']
      test_arg_range [of 5 0 JITContainer_foo
        "\<lparr>random = Random_init 0, result = 0, trace = []\<rparr>" st'] i
    by simp
qed

section \<open>The passes the orchestrator starts\<close>

lemma doTest_accepted:
  "(\<exists>b. doTest jitCode input expected = Inr b) \<longleftrightarrow>
     accepted (jitedCode jitCode callback input) expected"
  by (auto simp: doTest_def invoke_def accepted_def split: outcome.splits)

lemma doTest_not_accepted:
  "(\<exists>ex. doTest jitCode input expected = Inl ex) \<longleftrightarrow>
     \<not> accepted (jitedCode jitCode callback input) expected"
  by (auto simp: doTest_def invoke_def accepted_def split: outcome.splits)

lemma inner_loop_completes_iff:
  "(\<exists>st'. inner_loop jitCode errorRate index st = Inr st') \<longleftrightarrow>
     list_all (\<lambda>arg. accepted (jitedCode jitCode callback arg) (expected_of arg))
       (map (test_arg errorRate) (draws (unat (repeat - index)) (random st)))"
proof (induction jitCode errorRate index st rule: inner_loop.induct)
  case (1 jitCode errorRate index st)
  show ?case
  proof (cases "index = repeat")
    case True
    then show ?thesis
      by (simp add: inner_loop.simps)
  next
    case False
    define d where "d = Random_draw (random st)"
    define arg where "arg = test_arg errorRate (fst d)"
    have dr: "draws (unat (repeat - index)) (random st) =
        fst d # draws (unat (repeat - (index + 1))) (snd d)"
      by (simp add: unat_diff_Suc [OF False] d_def)
    show ?thesis
    proof (cases "doTest jitCode arg (expected_of arg)")
      case (Inl ex)
      then have "\<not> accepted (jitedCode jitCode callback arg) (expected_of arg)"
        using doTest_not_accepted [of jitCode arg "expected_of arg"] by blast
      moreover have "inner_loop jitCode errorRate index st = Inl ex"
        using False Inl by (subst inner_loop.simps) (simp add: Let_def d_def arg_def)
      ultimately show ?thesis
        by (simp add: dr arg_def)
    next
      case (Inr b)
      then have acc: "accepted (jitedCode jitCode callback arg) (expected_of arg)"
        using doTest_accepted [of jitCode arg "expected_of arg"] by blast
      let ?st = "st\<lparr>random := snd d, result := result st + of_bool b,
          trace := trace st @ [Invoke arg (expected_of arg)]\<rparr>"
      have step: "inner_loop jitCode errorRate index st =
          inner_loop jitCode errorRate (index + 1) ?st"
        using False Inr by (subst inner_loop.simps) (simp add: Let_def d_def arg_def)
      note IH = "1.IH" [OF False d_def arg_def refl Inr]
      show ?thesis
        using IH acc by (simp add: step dr arg_def)
    qed
  qed
qed

lemma unit_invocations_skip:
  "unit_invocations errorRate (skip 10000 rnd) k = unit_invocations errorRate rnd (Suc k)"
  using skip_add [of 10000 "10000 * k" rnd] by (simp add: unit_invocations_def)

lemma outer_loop_completes_iff:
  "(\<exists>st'. outer_loop compile errorRate pass st = Inr st') \<longleftrightarrow>
     list_all
       (\<lambda>k. list_all
          (\<lambda>arg. accepted (jitedCode (compile (pass + of_nat k)) callback arg) (expected_of arg))
          (unit_invocations errorRate (random st) k))
       [0..<unat (functionRepeat - pass)]"
proof (induction compile errorRate pass st rule: outer_loop.induct)
  case (1 compile errorRate pass st)
  show ?case
  proof (cases "pass = functionRepeat")
    case True
    then show ?thesis
      by (simp add: outer_loop.simps)
  next
    case False
    let ?st0 = "st\<lparr>trace := trace st @ [Construct]\<rparr>"
    let ?ok = "\<lambda>p k. list_all
          (\<lambda>arg. accepted (jitedCode (compile (p + of_nat k)) callback arg) (expected_of arg))"
    have up: "[0..<Suc n] = 0 # map Suc [0..<n]" for n
      by (simp add: upt_conv_Cons map_Suc_upt del: upt_Suc)
    have first: "(\<exists>st1. inner_loop (compile pass) errorRate 0 ?st0 = Inr st1) \<longleftrightarrow>
        ?ok pass 0 (unit_invocations errorRate (random st) 0)"
      using inner_loop_completes_iff [of "compile pass" errorRate 0 ?st0]
      by (simp add: unit_invocations_def unat_repeat)
    have pt: "?ok pass (Suc k) (unit_invocations errorRate (random st) (Suc k)) \<longleftrightarrow>
        ?ok (pass + 1) k (unit_invocations errorRate (skip 10000 (random st)) k)" for k
    proof -
      have "pass + of_nat (Suc k) = pass + 1 + of_nat k"
        by simp
      then show ?thesis
        by (simp only: unit_invocations_skip)
    qed
    have split: "list_all (\<lambda>k. ?ok pass k (unit_invocations errorRate (random st) k))
          [0..<unat (functionRepeat - pass)] \<longleftrightarrow>
        ?ok pass 0 (unit_invocations errorRate (random st) 0) \<and>
        list_all (\<lambda>k. ?ok (pass + 1) k (unit_invocations errorRate (skip 10000 (random st)) k))
          [0..<unat (functionRepeat - (pass + 1))]"
      unfolding unat_diff_Suc [OF False] up
      by (simp only: list.pred_inject list.pred_map comp_def pt)
    show ?thesis
    proof (cases "inner_loop (compile pass) errorRate 0 ?st0")
      case (Inl ex)
      then have "outer_loop compile errorRate pass st = Inl ex"
        using False by (subst outer_loop.simps) simp
      moreover have "\<not> ?ok pass 0 (unit_invocations errorRate (random st) 0)"
        using first Inl by simp
      ultimately show ?thesis
        using split by simp
    next
      case (Inr st1)
      let ?st1 = "st1\<lparr>trace := trace st1 @ [Destruct]\<rparr>"
      have step: "outer_loop compile errorRate pass st =
          outer_loop compile errorRate (pass + 1) ?st1"
        using False Inr by (subst outer_loop.simps) simp
      have rnd: "random ?st1 = skip 10000 (random st)"
        using inner_loop_Inr [OF Inr] by (simp add: unat_repeat)
      have ok0: "?ok pass 0 (unit_invocations errorRate (random st) 0)"
        using first Inr by simp
      note IH = "1.IH" [OF False Inr]
      show ?thesis
        using IH ok0 rnd split by (simp add: step)
    qed
  qed
qed

lemma doTest_pass_completes_iff:
  "(\<exists>st err. doTest_pass compile errorRate seed = Inr (st, err)) \<longleftrightarrow>
     list_all
       (\<lambda>k. list_all
          (\<lambda>arg. accepted (jitedCode (compile (of_nat k)) callback arg) (expected_of arg))
          (unit_invocations errorRate (Random_init (ucast seed)) k))
       [0..<10]"
proof -
  let ?st = "\<lparr>random = Random_init (ucast seed), result = 0, trace = []\<rparr>"
  have "(\<exists>st err. doTest_pass compile errorRate seed = Inr (st, err)) \<longleftrightarrow>
      (\<exists>st'. outer_loop compile errorRate 0 ?st = Inr st')"
    by (auto simp: doTest_pass_def split: sum.splits)
  then show ?thesis
    using outer_loop_completes_iff [of compile errorRate 0 ?st]
    by (simp add: unat_functionRepeat)
qed

lemma spawn_loop_upt:
  "spawn_loop body threadCount index threads =
     threads @ map (\<lambda>k. body (index + of_nat k)) [0..<unat (threadCount - index)]"
proof (induction body threadCount index threads rule: spawn_loop.induct)
  case (1 body threadCount index threads)
  show ?case
  proof (cases "index = threadCount")
    case True
    then show ?thesis by (simp add: spawn_loop.simps)
  next
    case False
    have up: "[0..<Suc n] = 0 # map Suc [0..<n]" for n
      by (simp add: upt_conv_Cons map_Suc_upt del: upt_Suc)
    show ?thesis
      using "1.IH" [OF False] False
      by (subst spawn_loop.simps)
        (simp add: unat_diff_Suc [OF False] up comp_def algebra_simps del: upt_Suc)
  qed
qed

lemma spawn_loop_threads:
  "spawn_loop body threadCount 0 [] = map (\<lambda>k. body (of_nat k)) [0..<unat threadCount]"
  by (simp add: spawn_loop_upt)

lemma length_unit_invocations: "length (unit_invocations errorRate rnd k) = 10000"
  by (simp add: unit_invocations_def length_draws)

text \<open>
  C6: with a thread count of at most 1 the orchestrator runs one pass inline, seeded
  with 0; with a thread count \<open>N > 1\<close> it spawns \<open>N\<close> threads, which run the passes
  seeded with 0, ..., \<open>N - 1\<close>, in the order of spawning. A pass makes 10 containers and
  invokes each 10000 times: it completes exactly when, for each \<open>k\<close> of the 10, the
  compiled code of the \<open>k\<close>-th container it constructed, called with the callback on each
  of the 10000 arguments drawn for that container, comes back with an outcome the check
  helper accepts (one invocation that does not stops the pass); the trace of a completed
  pass is 10 blocks, each a construction, the 10000 invocations of that container in
  order, and a destruction; and a pass whose containers compute what the generated IR
  says does complete.
\<close>

theorem orchestrator_passes:
  "(threadCount \<le> 1 \<longrightarrow>
      doTestMultithreaded_passes compile errorRate threadCount =
        Inline (doTest_pass (compile 0) errorRate 0)) \<and>
   (1 < threadCount \<longrightarrow>
      doTestMultithreaded_passes compile errorRate threadCount =
        Spawned (map (\<lambda>k. doTest_pass (compile (of_nat k)) errorRate (of_nat k))
                   [0..<unat threadCount]) \<and>
      length (map (\<lambda>k. doTest_pass (compile (of_nat k)) errorRate (of_nat k))
                [0..<unat threadCount]) = unat threadCount) \<and>
   ((\<exists>st err. doTest_pass units errorRate seed = Inr (st, err)) \<longleftrightarrow>
      list_all
        (\<lambda>k. list_all
           (\<lambda>arg. accepted (jitedCode (units (of_nat k)) callback arg) (expected_of arg))
           (unit_invocations errorRate (Random_init (ucast seed)) k))
        [0..<10]) \<and>
   length [0..<(10 :: nat)] = 10 \<and>
   length (unit_invocations errorRate rnd k) = 10000 \<and>
   ((\<exists>b. doTest jitCode input expected = Inr b) \<longleftrightarrow>
      accepted (jitedCode jitCode callback input) expected) \<and>
   (doTest_pass units errorRate seed = Inr (st, err) \<longrightarrow>
      trace st = concat (map (unit_trace errorRate (Random_init (ucast seed))) [0..<10])) \<and>
   unit_trace errorRate rnd k =
     Construct # map (\<lambda>arg. Invoke arg (expected_of arg)) (unit_invocations errorRate rnd k) @
     [Destruct] \<and>
   (\<exists>st. doTest_pass (\<lambda>pass. JITContainer_foo) errorRate seed = Inr (st, []))"
proof -
  have a: "doTestMultithreaded_passes compile errorRate threadCount =
        Inline (doTest_pass (compile 0) errorRate 0)" if "threadCount \<le> 1"
    using that by (simp add: doTestMultithreaded_passes_def)
  have b: "doTestMultithreaded_passes compile errorRate threadCount =
        Spawned (map (\<lambda>k. doTest_pass (compile (of_nat k)) errorRate (of_nat k))
                   [0..<unat threadCount])" if "1 < threadCount"
    using that
    by (simp add: doTestMultithreaded_passes_def spawn_loop_threads not_le [symmetric])
  have c: "trace st = concat (map (unit_trace errorRate (Random_init (ucast seed))) [0..<10])"
    if "doTest_pass units errorRate seed = Inr (st, err)"
    using that by (rule doTest_pass_Inr(1))
  have d: "unit_trace errorRate rnd k =
     Construct # map (\<lambda>arg. Invoke arg (expected_of arg)) (unit_invocations errorRate rnd k) @
     [Destruct]"
    by (simp add: unit_trace_def unit_invocations_def test_case_def comp_def)
  note e = doTest_pass_completes_iff [of units errorRate seed]
  note f = doTest_accepted [of jitCode input expected]
  note g = length_unit_invocations [of errorRate rnd k]
  note h = doTest_pass_foo [of errorRate seed]
  have i: "length [0..<(10 :: nat)] = 10"
    by simp
  have j: "length (map (\<lambda>k. doTest_pass (compile (of_nat k)) errorRate (of_nat k))
                [0..<unat threadCount]) = unat threadCount"
    by simp
  from a b c d e f g h i j show ?thesis
    by (intro conjI impI) assumption+
qed

theorem orchestrator_passes_witness:
  "doTestMultithreaded_passes (\<lambda>index pass. JITContainer_foo) 100 1 =
     Inline (doTest_pass (\<lambda>pass. JITContainer_foo) 100 0) \<and>
   doTestMultithreaded_passes (\<lambda>index pass. JITContainer_foo) 100 4 =
     Spawned [doTest_pass (\<lambda>pass. JITContainer_foo) 100 0,
              doTest_pass (\<lambda>pass. JITContainer_foo) 100 1,
              doTest_pass (\<lambda>pass. JITContainer_foo) 100 2,
              doTest_pass (\<lambda>pass. JITContainer_foo) 100 3] \<and>
   (\<exists>st. doTest_pass (\<lambda>pass. JITContainer_foo) 100 3 = Inr (st, []) \<and>
      trace st = concat (map (unit_trace 100 (Random_init 3)) [0..<10])) \<and>
   list_all
     (\<lambda>k. list_all
        (\<lambda>arg. accepted (jitedCode JITContainer_foo callback arg) (expected_of arg))
        (unit_invocations 100 (Random_init 3) k))
     [0..<10] \<and>
   \<not> (\<exists>st err. doTest_pass (\<lambda>pass. \<lparr>jitedCode = \<lambda>bar v. Returned (- 1)\<rparr>) 100 3 =
          Inr (st, err))"
proof -
  let ?ideal = "\<lambda>pass :: c_unsigned. JITContainer_foo"
  let ?broken = "\<lambda>pass :: c_unsigned. \<lparr>jitedCode = \<lambda>bar v. Returned (- 1)\<rparr>"
  obtain st where p: "doTest_pass ?ideal 100 3 = Inr (st, [])"
    using doTest_pass_foo by blast
  note T1 = orchestrator_passes [where threadCount = 1 and compile = "\<lambda>index. ?ideal"
      and errorRate = 100 and units = ?ideal and seed = 3 and st = st and err = "[]"]
  note T4 = orchestrator_passes [where threadCount = 4 and compile = "\<lambda>index. ?ideal"
      and errorRate = 100 and units = ?ideal and seed = 3 and st = st and err = "[]"]
  note Tb = orchestrator_passes [where threadCount = 1 and compile = "\<lambda>index. ?ideal"
      and errorRate = 100 and units = ?broken and seed = 3 and st = st and err = "[]"
      and rnd = "Random_init 3" and k = 0]
  have c1: "doTestMultithreaded_passes (\<lambda>index. ?ideal) 100 1 = Inline (doTest_pass ?ideal 100 0)"
    using T1 [THEN conjunct1] by simp
  have u: "[0..<unat (4 :: c_unsigned)] = [0, 1, 2, 3]"
    by (simp add: upt_rec)
  have "doTestMultithreaded_passes (\<lambda>index. ?ideal) 100 4 =
      Spawned (map (\<lambda>k. doTest_pass ?ideal 100 (of_nat k)) [0..<unat (4 :: c_unsigned)])"
    using T4 [THEN conjunct2, THEN conjunct1] by simp
  then have c2: "doTestMultithreaded_passes (\<lambda>index. ?ideal) 100 4 =
      Spawned [doTest_pass ?ideal 100 0, doTest_pass ?ideal 100 1,
               doTest_pass ?ideal 100 2, doTest_pass ?ideal 100 3]"
    by (simp only: u) simp
  note iff1 = T1 [THEN conjunct2, THEN conjunct2, THEN conjunct1]
  have ex: "\<exists>st err. doTest_pass ?ideal 100 3 = Inr (st, err)"
    using p by blast
  have c4: "list_all
     (\<lambda>k. list_all
        (\<lambda>arg. accepted (jitedCode JITContainer_foo callback arg) (expected_of arg))
        (unit_invocations 100 (Random_init 3) k))
     [0..<10]"
    using iff1 ex by simp
  have "trace st = concat (map (unit_trace 100 (Random_init 3)) [0..<10])"
    using T1 [THEN conjunct2, THEN conjunct2, THEN conjunct2, THEN conjunct2, THEN conjunct2,
        THEN conjunct2, THEN conjunct1] p
    by simp
  with p have c3: "\<exists>st. doTest_pass ?ideal 100 3 = Inr (st, []) \<and>
      trace st = concat (map (unit_trace 100 (Random_init 3)) [0..<10])"
    by blast
  note iffb = Tb [THEN conjunct2, THEN conjunct2, THEN conjunct1]
  note len = Tb [THEN conjunct2, THEN conjunct2, THEN conjunct2, THEN conjunct2, THEN conjunct1]
  have rej: "\<not> accepted (Returned (- 1)) expected" for expected
    by (simp add: accepted_def word_sless_alt)
  have "unit_invocations 100 (Random_init 3) 0 \<noteq> []"
    using len by auto
  then have "\<not> list_all (\<lambda>arg. accepted (Returned (- 1)) (expected_of arg))
      (unit_invocations 100 (Random_init 3) 0)"
    by (cases "unit_invocations 100 (Random_init 3) 0") (simp_all add: rej)
  then have "\<not> list_all
     (\<lambda>k. list_all
        (\<lambda>arg. accepted (Returned (- 1)) (expected_of arg))
        (unit_invocations 100 (Random_init 3) k))
     [0..<10]"
    by (simp add: upt_rec [of 0 10])
  then have c5: "\<not> (\<exists>st err. doTest_pass ?broken 100 3 = Inr (st, err))"
    using iffb by simp
  from c1 c2 c3 c4 c5 show ?thesis
    by (intro conjI)
qed

section \<open>The counter of a completed pass\<close>

text \<open>
  C10: the check helper returns \<open>true\<close> whenever it returns (every failing path ends
  the process with status 1), so a completed pass has counted exactly
  10 * 10000 = 100000 checks, the counter is not zero and "invalid result!" is not
  written; a pass that does not complete ended in the helper's exit, never in that
  branch.
\<close>

theorem pass_result_nonzero:
  "(doTest jitCode input expected = Inr b \<longrightarrow> b) \<and>
   (doTest jitCode input expected = Inl ex \<longrightarrow> status ex = 1) \<and>
   (doTest_pass compile errorRate seed = Inr (st, err) \<longrightarrow>
      result st = 10 * 10000 \<and> result st = 100000 \<and> result st \<noteq> 0 \<and> err = []) \<and>
   (doTest_pass compile errorRate seed = Inl ex' \<longrightarrow> status ex' = 1)"
proof -
  have b: "result st = 100000 \<and> err = []"
    if "doTest_pass compile errorRate seed = Inr (st, err)"
    using doTest_pass_Inr(3,4) [OF that] by simp
  show ?thesis
    using b doTest_returns_True [of jitCode input expected b]
      doTest_exit_status [of jitCode input expected ex]
      doTest_pass_Inl [of compile errorRate seed ex']
    by auto
qed

theorem pass_result_nonzero_witness:
  "doTest JITContainer_foo 2 1 = Inr True \<and>
   (\<exists>st. doTest_pass (\<lambda>pass. JITContainer_foo) 0 0 = Inr (st, []) \<and> result st = 100000) \<and>
   (\<exists>ex. doTest_pass (\<lambda>pass. \<lparr>jitedCode = \<lambda>bar v. Returned (- 1)\<rparr>) 0 0 = Inl ex \<and> status ex = 1)"
proof -
  have t: "doTest JITContainer_foo 2 1 = Inr True"
    by (simp add: doTest_def invoke_def JITContainer_foo_def foo_def callback_def int_div_def
        word_sless_alt signed_divide_int_def)
  obtain st where p: "doTest_pass (\<lambda>pass. JITContainer_foo) 0 0 = Inr (st, [])"
    using doTest_pass_foo by blast
  have bad: "doTest \<lparr>jitedCode = \<lambda>bar v. Returned (- 1)\<rparr> input expected =
      Inl (Exit 1 (Unexpected_result input expected (Got_value (- 1))))" for input expected
    by (simp add: doTest_def invoke_def word_sless_alt)
  have "inner_loop \<lparr>jitedCode = \<lambda>bar v. Returned (- 1)\<rparr> 0 0 s0 =
      Inl (Exit 1 (Unexpected_result (test_arg 0 (fst (Random_draw (random s0))))
        (expected_of (test_arg 0 (fst (Random_draw (random s0))))) (Got_value (- 1))))" for s0
    by (subst inner_loop.simps) (simp add: Let_def bad repeat_def)
  then have "\<exists>ex. doTest_pass (\<lambda>pass. \<lparr>jitedCode = \<lambda>bar v. Returned (- 1)\<rparr>) 0 0 = Inl ex"
    by (subst doTest_pass_def, subst outer_loop.simps) (simp add: functionRepeat_def)
  then obtain ex where q: "doTest_pass (\<lambda>pass. \<lparr>jitedCode = \<lambda>bar v. Returned (- 1)\<rparr>) 0 0 = Inl ex"
    by blast
  show ?thesis
    using t p q
      pass_result_nonzero [of JITContainer_foo 2 1 True ex "\<lambda>pass. JITContainer_foo" 0 0 st "[]" ex]
      pass_result_nonzero [of JITContainer_foo 2 1 True ex
        "\<lambda>pass. \<lparr>jitedCode = \<lambda>bar v. Returned (- 1)\<rparr>" 0 0 st "[]" ex]
    by auto
qed

section \<open>The shared maximum\<close>

lemma max_inv_init:
  "max_inv durations \<lparr>maxDuration = 0, workers = replicate (length durations) Measuring\<rparr>"
  by (simp add: max_inv_def)

lemma max_inv_step:
  assumes "step durations s s'" "max_inv durations s"
  shows "max_inv durations s'"
  using assms
proof (cases rule: step.cases)
  case (load i)
  then show ?thesis using assms(2)
    by (auto simp: max_inv_def nth_list_update)
next
  case (leave i current)
  then show ?thesis using assms(2)
    by (auto simp: max_inv_def nth_list_update not_less)
next
  case (cas_success i current)
  then show ?thesis using assms(2)
    by (fastforce simp: max_inv_def nth_list_update)
next
  case (cas_failure i current)
  then show ?thesis using assms(2)
    by (auto simp: max_inv_def nth_list_update)
qed

lemma reachable_max_inv: "reachable durations s \<Longrightarrow> max_inv durations s"
  by (induction rule: reachable.induct) (auto intro: max_inv_init max_inv_step)

lemma joined_nth: "joined s \<Longrightarrow> i < length (workers s) \<Longrightarrow> workers s ! i = Joinable"
  by (simp add: joined_def list_all_length)

lemma step_to_Joinable:
  assumes "step durations s s'" "i < length (workers s)"
    "workers s ! i \<noteq> Joinable" "workers s' ! i = Joinable"
  shows "\<exists>current. workers s ! i = Looping current \<and>
           (\<not> current < durations ! i \<or>
            (current < durations ! i \<and> maxDuration s = current \<and>
             maxDuration s' = durations ! i))"
  using assms
  by (cases rule: step.cases) (auto simp: nth_list_update split: if_splits)
text \<open>
  C7: in every interleaving of the workers' atomic steps, a worker leaves its retry loop
  only by a successful exchange (which stores its duration) or because the value it last
  read from \<^verbatim>\<open>maxDuration\<close> is not smaller than its duration; and the value the
  orchestrator returns after joining all workers is at least every worker's duration.
\<close>

theorem maxDuration_upper_bound:
  "(step durations s s' \<and> i < length (workers s) \<and> workers s ! i \<noteq> Joinable \<and>
      workers s' ! i = Joinable \<longrightarrow>
      (\<exists>current. workers s ! i = Looping current \<and>
         (\<not> current < durations ! i \<or>
          (current < durations ! i \<and> maxDuration s = current \<and>
           maxDuration s' = durations ! i)))) \<and>
   (doTestMultithreaded_returns durations s v \<longrightarrow> list_all (\<lambda>d. d \<le> v) durations)"
proof -
  have "list_all (\<lambda>d. d \<le> v) durations" if r: "doTestMultithreaded_returns durations s v"
  proof -
    from r have inv: "max_inv durations s" and j: "joined s" and v: "v = maxDuration s"
      by (simp_all add: doTestMultithreaded_returns_def reachable_max_inv)
    have "durations ! i \<le> v" if "i < length durations" for i
    proof -
      from inv j that have "workers s ! i = Joinable"
        by (simp add: joined_nth max_inv_def)
      with inv that v show ?thesis
        by (auto simp: max_inv_def)
    qed
    then show ?thesis
      by (simp add: list_all_length)
  qed
  then show ?thesis
    using step_to_Joinable [of durations s s' i] by blast
qed

theorem maxDuration_upper_bound_witness:
  "doTestMultithreaded_returns [5, 3] \<lparr>maxDuration = 5, workers = [Joinable, Joinable]\<rparr> 5 \<and>
   step [5, 3] \<lparr>maxDuration = 3, workers = [Looping 3, Joinable]\<rparr>
     \<lparr>maxDuration = 5, workers = [Joinable, Joinable]\<rparr> \<and>
   list_all (\<lambda>d. d \<le> 5) [5, 3 :: c_unsigned]"
proof -
  let ?d = "[5, 3] :: c_unsigned list"
  have r0: "reachable ?d \<lparr>maxDuration = 0, workers = [Measuring, Measuring]\<rparr>"
    using reachable.init [of ?d] by simp
  have s1: "step ?d \<lparr>maxDuration = 0, workers = [Measuring, Measuring]\<rparr>
      \<lparr>maxDuration = 0, workers = [Looping 0, Measuring]\<rparr>"
    using step.load [of 0 "\<lparr>maxDuration = 0, workers = [Measuring, Measuring]\<rparr>" ?d] by simp
  have s2: "step ?d \<lparr>maxDuration = 0, workers = [Looping 0, Measuring]\<rparr>
      \<lparr>maxDuration = 0, workers = [Looping 0, Looping 0]\<rparr>"
    using step.load [of 1 "\<lparr>maxDuration = 0, workers = [Looping 0, Measuring]\<rparr>" ?d] by simp
  have s3: "step ?d \<lparr>maxDuration = 0, workers = [Looping 0, Looping 0]\<rparr>
      \<lparr>maxDuration = 3, workers = [Looping 0, Joinable]\<rparr>"
    using step.cas_success [of 1 "\<lparr>maxDuration = 0, workers = [Looping 0, Looping 0]\<rparr>" 0 ?d]
    by simp
  have s4: "step ?d \<lparr>maxDuration = 3, workers = [Looping 0, Joinable]\<rparr>
      \<lparr>maxDuration = 3, workers = [Looping 3, Joinable]\<rparr>"
    using step.cas_failure [of 0 "\<lparr>maxDuration = 3, workers = [Looping 0, Joinable]\<rparr>" 0 ?d]
    by simp
  have s5: "step ?d \<lparr>maxDuration = 3, workers = [Looping 3, Joinable]\<rparr>
      \<lparr>maxDuration = 5, workers = [Joinable, Joinable]\<rparr>"
    using step.cas_success [of 0 "\<lparr>maxDuration = 3, workers = [Looping 3, Joinable]\<rparr>" 3 ?d]
    by simp
  note r1 = reachable.after [OF r0 s1]
  note r2 = reachable.after [OF r1 s2]
  note r3 = reachable.after [OF r2 s3]
  note r4 = reachable.after [OF r3 s4]
  have "reachable ?d \<lparr>maxDuration = 5, workers = [Joinable, Joinable]\<rparr>"
    by (rule reachable.after [OF r4 s5])
  then have ret: "doTestMultithreaded_returns ?d
      \<lparr>maxDuration = 5, workers = [Joinable, Joinable]\<rparr> 5"
    by (simp add: doTestMultithreaded_returns_def joined_def)
  have "list_all (\<lambda>d. d \<le> 5) ?d"
    using ret
      maxDuration_upper_bound [of ?d "\<lparr>maxDuration = 5, workers = [Joinable, Joinable]\<rparr>"
        "\<lparr>maxDuration = 5, workers = [Joinable, Joinable]\<rparr>" 0 5]
    by (simp only: simp_thms)
  with ret s5 show ?thesis
    by (simp only: simp_thms)
qed

section \<open>The default list of thread counts\<close>

lemma stuck_aux:
  "buildThreadCounts_loop maxCount xs = Some ys \<Longrightarrow> \<not> (last xs = 0 \<and> 0 < maxCount)"
proof (rule buildThreadCounts_loop.raw_induct
    [where P = "\<lambda>m xs ys. \<not> (last xs = 0 \<and> 0 < m)"])
  fix f :: "c_unsigned \<Rightarrow> c_unsigned list \<Rightarrow> c_unsigned list option"
    and m :: c_unsigned and xs ys :: "c_unsigned list"
  assume IH: "\<And>m xs ys. f m xs = Some ys \<Longrightarrow> \<not> (last xs = 0 \<and> 0 < m)"
    and step: "(if last xs < m then f m (xs @ [min (last xs * 2) m]) else Some xs) = Some ys"
  show "\<not> (last xs = 0 \<and> 0 < m)"
  proof
    assume a: "last xs = 0 \<and> 0 < m"
    with step have "f m (xs @ [min (last xs * 2) m]) = Some ys"
      by simp
    from IH [OF this] a show False
      by simp
  qed
qed

lemma stuck: "last xs = 0 \<Longrightarrow> 0 < maxCount \<Longrightarrow> buildThreadCounts_loop maxCount xs = None"
  using stuck_aux [of maxCount xs] by (cases "buildThreadCounts_loop maxCount xs") auto

lemma unat_2pow: "k < 32 \<Longrightarrow> unat ((2 :: c_unsigned) ^ k) = 2 ^ k"
proof -
  assume k: "k < 32"
  have lt: "(2 :: nat) ^ k < 2 ^ 32"
    using k by (rule power_strict_increasing) simp
  have "unat (word_of_nat (2 ^ k) :: c_unsigned) = 2 ^ k mod 2 ^ 32"
    by (simp only: unat_of_nat) simp
  then have "unat (word_of_nat (2 ^ k) :: c_unsigned) = 2 ^ k"
    using lt by (simp only: mod_less)
  moreover have "(word_of_nat (2 ^ k) :: c_unsigned) = 2 ^ k"
    by (simp only: of_nat_power of_nat_numeral)
  ultimately show ?thesis
    by (simp only:)
qed

lemma pow_lt_big: "k \<le> 31 \<Longrightarrow> (2 :: c_unsigned) ^ k < 0x80000001"
proof -
  assume k: "k \<le> 31"
  then have "(2 :: nat) ^ k \<le> 2 ^ 31"
    by (intro power_increasing) simp_all
  moreover have "unat ((2 :: c_unsigned) ^ k) = 2 ^ k"
    using k by (intro unat_2pow) simp
  ultimately show ?thesis
    by (simp add: word_less_nat_alt)
qed

lemma pow_le_big: "k \<le> 31 \<Longrightarrow> (2 :: c_unsigned) ^ k \<le> 0x80000001"
  using pow_lt_big [of k] by simp

lemma doubling_phase:
  assumes "k \<le> 31" "last xs = 2 ^ k"
  shows "buildThreadCounts_loop 0x80000001 xs = None"
  using assms
proof (induction "31 - k" arbitrary: k xs)
  case 0
  then have k: "k = 31" by simp
  have lt: "last xs < 0x80000001"
    using "0.prems" pow_lt_big [of k] by simp
  have "last xs * 2 = 0"
    using "0.prems" k by simp
  then have "last (xs @ [min (last xs * 2) 0x80000001]) = 0"
    by simp
  then have "buildThreadCounts_loop 0x80000001 (xs @ [min (last xs * 2) 0x80000001]) = None"
    by (rule stuck) simp
  then show ?case
    using lt by (subst buildThreadCounts_loop.simps) simp
next
  case (Suc n)
  then have k: "Suc k \<le> 31" by simp
  have lt: "last xs < 0x80000001"
    using Suc.prems pow_lt_big [of k] by simp
  have "min ((2 :: c_unsigned) ^ Suc k) 0x80000001 = 2 ^ Suc k"
    using pow_le_big [OF k] by (simp only: min_def if_True)
  then have l: "last (xs @ [min (last xs * 2) 0x80000001]) = 2 ^ Suc k"
    using Suc.prems by (simp add: mult.commute)
  have n: "n = 31 - Suc k"
    using Suc.hyps(2) by simp
  have "buildThreadCounts_loop 0x80000001 (xs @ [min (last xs * 2) 0x80000001]) = None"
    by (rule Suc.hyps(1) [OF n k l])
  then show ?case
    using lt by (subst buildThreadCounts_loop.simps) simp
qed

lemma sorted_le_last:
  "sorted_wrt (<) (ys :: c_unsigned list) \<Longrightarrow> ys \<noteq> [] \<Longrightarrow> list_all (\<lambda>y. y \<le> last ys) ys"
proof (induction ys rule: rev_induct)
  case Nil
  then show ?case by simp
next
  case (snoc y ys)
  then show ?case
    by (auto simp: sorted_wrt_append list_all_iff)
qed

lemma half_bound: "unat ((h :: c_unsigned) div 2) \<le> 2 ^ 31"
proof -
  have "unat h < 2 ^ 32"
    using unsigned_less [of h, where 'a = nat] by simp
  then have "unat h div 2 \<le> 2 ^ 31"
    by simp
  moreover have "unat (h div 2) = unat h div unat (2 :: c_unsigned)"
    by (rule unat_div)
  ultimately show ?thesis
    by simp
qed

lemma doubling_snoc_1: "doubling 0 xs \<Longrightarrow> xs \<noteq> [] \<Longrightarrow> doubling 1 (xs @ [y])"
proof -
  assume d: "doubling 0 xs" and ne: "xs \<noteq> []"
  have "(xs @ [y]) ! Suc i = 2 * (xs @ [y]) ! i" if "i < length xs - 1" for i
  proof -
    from that have "Suc i < length xs" by simp
    moreover from d that have "xs ! Suc i = 2 * xs ! i"
      by (simp add: doubling_def list_all_iff)
    ultimately show ?thesis
      by (simp add: nth_append)
  qed
  then show ?thesis
    by (simp add: doubling_def list_all_iff)
qed

lemma doubling_snoc_0:
  "doubling 0 xs \<Longrightarrow> xs \<noteq> [] \<Longrightarrow> y = 2 * last xs \<Longrightarrow> doubling 0 (xs @ [y])"
proof -
  assume d: "doubling 0 xs" and ne: "xs \<noteq> []" and y: "y = 2 * last xs"
  have "(xs @ [y]) ! Suc i = 2 * (xs @ [y]) ! i" if "i < length xs" for i
  proof (cases "Suc i < length xs")
    case True
    then have "i < length xs - 1" by simp
    with d have "xs ! Suc i = 2 * xs ! i"
      by (simp add: doubling_def list_all_iff)
    with True show ?thesis
      by (simp add: nth_append)
  next
    case False
    with that have i: "i = length xs - 1" by simp
    then have "xs ! i = last xs"
      using ne by (simp add: last_conv_nth)
    moreover have "(xs @ [y]) ! Suc i = y"
      using i ne by (simp add: nth_append)
    ultimately show ?thesis
      using y that by (simp add: nth_append)
  qed
  then show ?thesis
    by (simp add: doubling_def list_all_iff)
qed

lemma min_double_nat:
  assumes "unat (v :: c_unsigned) < unat m" "unat m \<le> 2 ^ 31"
  shows "unat (min (v * 2) m) = min (unat v * 2) (unat m)"
proof -
  have "unat v * 2 < 2 ^ 32"
    using assms by simp
  then have dbl: "unat (v * 2) = unat v * 2"
    by (simp add: unat_word_ariths)
  show ?thesis
  proof (cases "v * 2 \<le> m")
    case True
    then have "unat v * 2 \<le> unat m"
      using dbl by (simp add: word_le_nat_alt)
    with True dbl show ?thesis
      by (simp add: min_def)
  next
    case False
    then have "\<not> unat v * 2 \<le> unat m"
      using dbl by (simp add: word_le_nat_alt)
    with False show ?thesis
      by (simp add: min_def)
  qed
qed

lemma loop_returns:
  assumes m: "unat maxCount \<le> 2 ^ 31"
    and inv: "xs \<noteq> []" "hd xs = 1" "sorted_wrt (<) xs" "0 < last xs" "last xs \<le> maxCount"
      "doubling 1 xs" "last xs < maxCount \<longrightarrow> doubling 0 xs"
  shows "\<exists>ys. buildThreadCounts_loop maxCount xs = Some ys \<and> hd ys = 1 \<and>
           sorted_wrt (<) ys \<and> last ys = maxCount \<and> doubling 1 ys \<and> ys \<noteq> []"
  using inv
proof (induction "unat maxCount - unat (last xs)" arbitrary: xs rule: less_induct)
  case less
  show ?case
  proof (cases "last xs < maxCount")
    case False
    with less.prems(5) have "last xs = maxCount" by simp
    with False less.prems(1,2,3,6) show ?thesis
      by (subst buildThreadCounts_loop.simps) simp
  next
    case True
    define new where "new = min (last xs * 2) maxCount"
    let ?xs' = "xs @ [new]"
    have lm: "unat (last xs) < unat maxCount"
      using True by (simp add: word_less_nat_alt)
    have pos: "0 < unat (last xs)"
      using less.prems(4) by (simp add: word_less_nat_alt)
    have new_nat: "unat new = min (unat (last xs) * 2) (unat maxCount)"
      unfolding new_def by (rule min_double_nat [OF lm m])
    have gt: "last xs < new"
      using lm pos by (simp add: word_less_nat_alt new_nat)
    have le: "new \<le> maxCount"
      by (simp add: new_def)
    have "list_all (\<lambda>x. x \<le> last xs) xs"
      using less.prems(3,1) by (rule sorted_le_last)
    then have all_lt: "\<forall>x \<in> set xs. x < new"
      using gt by (auto simp: list_all_iff)
    have i1: "?xs' \<noteq> []" by simp
    have i2: "hd ?xs' = 1" using less.prems(1,2) by simp
    have i3: "sorted_wrt (<) ?xs'"
      using less.prems(3) all_lt by (simp add: sorted_wrt_append)
    have i4: "0 < last ?xs'"
      using gt less.prems(4) by simp
    have i5: "last ?xs' \<le> maxCount" using le by simp
    have full: "doubling 0 xs" using True less.prems(7) by simp
    have i6: "doubling 1 ?xs'"
      using full less.prems(1) by (rule doubling_snoc_1)
    have i7: "last ?xs' < maxCount \<longrightarrow> doubling 0 ?xs'"
    proof
      assume "last ?xs' < maxCount"
      then have "new < maxCount" by simp
      then have "new = 2 * last xs"
        unfolding new_def min_def by (simp add: mult.commute split: if_splits)
      with full less.prems(1) show "doubling 0 ?xs'"
        by (intro doubling_snoc_0)
    qed
    have "unat (last xs) < unat new"
      using gt by (simp add: word_less_nat_alt)
    then have dec: "unat maxCount - unat (last ?xs') < unat maxCount - unat (last xs)"
      using lm by simp
    from less.hyps [OF dec i1 i2 i3 i4 i5 i6 i7]
    obtain ys where ys: "buildThreadCounts_loop maxCount ?xs' = Some ys" "hd ys = 1"
        "sorted_wrt (<) ys" "last ys = maxCount" "doubling 1 ys" "ys \<noteq> []"
      by blast
    have "buildThreadCounts_loop maxCount xs = buildThreadCounts_loop maxCount ?xs'"
      using True by (subst buildThreadCounts_loop.simps) (simp add: new_def)
    with ys show ?thesis
      by simp
  qed
qed

lemma buildThreadCounts_zero: "buildThreadCounts 0 = Some [1]"
  by (simp add: buildThreadCounts_def buildThreadCounts_loop.simps)

lemma buildThreadCounts_returns:
  assumes "1 \<le> maxCount" "unat maxCount \<le> 2 ^ 31"
  shows "\<exists>ys. buildThreadCounts maxCount = Some ys \<and> hd ys = 1 \<and>
           sorted_wrt (<) ys \<and> last ys = maxCount \<and> doubling 1 ys \<and> ys \<noteq> []"
proof -
  have "0 < (1 :: c_unsigned)" by simp
  then show ?thesis
    unfolding buildThreadCounts_def
    using assms by (intro loop_returns) (simp_all add: doubling_def)
qed

text \<open>
  C9, as stated: for every \<open>maxCount \<ge> 1\<close> the builder returns a strictly increasing
  list from 1 to \<open>maxCount\<close>. The statement fails above \<open>2^31\<close>: at
  \<open>maxCount = 2147483649\<close> the list reaches 2147483648, which is below \<open>maxCount\<close>, its
  double wraps to 0, and from then on the loop appends \<open>min(0, maxCount) = 0\<close> without
  end: the builder does not return.
\<close>

theorem buildThreadCounts_wrap_counterexample: "buildThreadCounts 0x80000001 = None"
  using doubling_phase [of 0 "[1]"] by (simp add: buildThreadCounts_def)

text \<open>
  C9, amended: for every \<open>maxCount\<close> with \<open>1 \<le> maxCount \<le> 2^31\<close> the builder returns,
  and its list starts at 1, is strictly increasing, has each element the double of its
  predecessor except possibly the last, has every element at most \<open>maxCount\<close> and ends
  with \<open>maxCount\<close>; for \<open>maxCount = 0\<close> it returns \<open>[1]\<close>. The program calls the builder
  with half the hardware concurrency, which is at most \<open>2^31 - 1\<close>, so that call returns.
\<close>

theorem buildThreadCounts_shape:
  "(1 \<le> maxCount \<and> unat maxCount \<le> 2 ^ 31 \<longrightarrow>
      (\<exists>ys. buildThreadCounts maxCount = Some ys \<and> hd ys = 1 \<and> sorted_wrt (<) ys \<and>
         doubling 1 ys \<and> list_all (\<lambda>y. y \<le> maxCount) ys \<and> last ys = maxCount)) \<and>
   buildThreadCounts 0 = Some [1] \<and>
   (\<exists>ys. buildThreadCounts (hardware_concurrency div 2) = Some ys)"
proof -
  have a: "\<exists>ys. buildThreadCounts maxCount = Some ys \<and> hd ys = 1 \<and> sorted_wrt (<) ys \<and>
         doubling 1 ys \<and> list_all (\<lambda>y. y \<le> maxCount) ys \<and> last ys = maxCount"
    if "1 \<le> maxCount" "unat maxCount \<le> 2 ^ 31"
  proof -
    from buildThreadCounts_returns [OF that]
    obtain ys where ys: "buildThreadCounts maxCount = Some ys" "hd ys = 1"
        "sorted_wrt (<) ys" "last ys = maxCount" "doubling 1 ys" "ys \<noteq> []"
      by blast
    from sorted_le_last [OF ys(3,6)] ys(4) have "list_all (\<lambda>y. y \<le> maxCount) ys"
      by simp
    with ys show ?thesis
      by blast
  qed
  have b: "\<exists>ys. buildThreadCounts (hardware_concurrency div 2) = Some ys"
  proof (cases "hardware_concurrency div 2 = 0")
    case True
    then show ?thesis
      by (simp add: buildThreadCounts_zero)
  next
    case False
    then have "1 \<le> hardware_concurrency div 2"
      by (simp add: word_le_nat_alt unat_gt_0 Suc_le_eq)
    from buildThreadCounts_returns [OF this half_bound] show ?thesis
      by blast
  qed
  show ?thesis
    using a b buildThreadCounts_zero by simp
qed

theorem buildThreadCounts_shape_witness:
  "buildThreadCounts 12 = Some [1, 2, 4, 8, 12] \<and> hd [1, 2, 4, 8, 12 :: c_unsigned] = 1 \<and>
   sorted_wrt (<) [1, 2, 4, 8, 12 :: c_unsigned] \<and> doubling 1 [1, 2, 4, 8, 12] \<and>
   list_all (\<lambda>y. y \<le> 12) [1, 2, 4, 8, 12 :: c_unsigned] \<and>
   buildThreadCounts 2147483648 \<noteq> None"
proof -
  have e: "buildThreadCounts 12 = Some [1, 2, 4, 8, 12]"
    by code_simp
  have h: "(1 :: c_unsigned) \<le> 12 \<and> unat (12 :: c_unsigned) \<le> 2 ^ 31"
    "(1 :: c_unsigned) \<le> 2147483648 \<and> unat (2147483648 :: c_unsigned) \<le> 2 ^ 31"
    by simp_all
  from buildThreadCounts_shape [of 12 0] h(1) e
  have "hd [1, 2, 4, 8, 12 :: c_unsigned] = 1 \<and>
      sorted_wrt (<) [1, 2, 4, 8, 12 :: c_unsigned] \<and> doubling 1 [1, 2, 4, 8, 12] \<and>
      list_all (\<lambda>y. y \<le> 12) [1, 2, 4, 8, 12 :: c_unsigned]"
    by auto
  moreover from buildThreadCounts_shape [of 2147483648 0] h(2)
  have "buildThreadCounts 2147483648 \<noteq> None"
    by auto
  ultimately show ?thesis
    using e by simp
qed

section \<open>The command line\<close>

declare interpret_loop.simps [simp del]

lemma isdigit_plain:
  "isdigit c \<Longrightarrow> \<not> isspace c \<and> c \<noteq> CHR ''-'' \<and> c \<noteq> CHR ''+'' \<and> c \<noteq> CHR '' ''"
  by (auto simp: isdigit_def isspace_def)

lemma stoi_numeral_token:
  assumes "numeral_token t"
  shows "stoi t = Inr (of_nat (digits_value 0 t))"
proof -
  from assms obtain c cs where t: "t = c # cs" and c: "isdigit c" and all: "list_all isdigit t"
    and v: "digits_value 0 t \<le> 2147483647"
    by (cases t) (auto simp: numeral_token_def)
  have d: "dropWhile isspace t = t"
    using t c isdigit_plain [of c] by simp
  have k: "takeWhile isdigit t = t"
    using all by (simp add: takeWhile_eq_all_conv list_all_iff)
  have h: "hd t \<noteq> CHR ''-''" "hd t \<noteq> CHR ''+''" "t \<noteq> []"
    using t c isdigit_plain [of c] by simp_all
  have "stoi t = Inr (word_of_int (int (digits_value 0 t)))"
    using v by (simp add: stoi_def d k h Let_def)
  then show ?thesis
    by simp
qed

lemma find_char_none: "c \<notin> set s \<Longrightarrow> find_char c s = None"
  by (induction s) auto

lemma find_char_append: "c \<notin> set s \<Longrightarrow> find_char c (s @ c # rest) = Some (length s)"
  by (induction s) auto

lemma token_no_space: "numeral_token t \<Longrightarrow> CHR '' '' \<notin> set t"
  using isdigit_plain by (auto simp: numeral_token_def list_all_iff)

lemma add_numeral_token:
  "numeral_token t \<Longrightarrow> add t acc = Inr (acc @ parsed [t])"
  by (simp add: add_def stoi_numeral_token parsed_def)

lemma parsed_Cons: "parsed (t # ts) = parsed [t] @ parsed ts"
  by (simp add: parsed_def)

lemma interpret_loop_tokens:
  "tokens \<noteq> [] \<Longrightarrow> list_all numeral_token tokens \<Longrightarrow>
     interpret_loop (join_spaces tokens) acc = Inr (acc @ parsed tokens)"
proof (induction tokens arbitrary: acc rule: join_spaces.induct)
  case 1
  then show ?case by simp
next
  case (2 t)
  then have t: "numeral_token t" by simp
  show ?case
    by (subst interpret_loop.simps)
      (simp add: find_char_none [OF token_no_space [OF t]] add_numeral_token [OF t])
next
  case (3 t t' ts)
  then have t: "numeral_token t" and rest: "list_all numeral_token (t' # ts)"
    by simp_all
  define j where "j = join_spaces (t' # ts)"
  have js: "join_spaces (t # t' # ts) = t @ CHR '' '' # j"
    by (simp add: j_def)
  have f: "find_char CHR '' '' (t @ CHR '' '' # j) = Some (length t)"
    by (rule find_char_append [OF token_no_space [OF t]])
  have "interpret_loop (t @ CHR '' '' # j) acc = interpret_loop j (acc @ parsed [t])"
    by (subst interpret_loop.simps) (simp add: f add_numeral_token [OF t])
  then have "interpret_loop (join_spaces (t # t' # ts)) acc =
      interpret_loop (join_spaces (t' # ts)) (acc @ parsed [t])"
    by (simp only: js j_def)
  also have "\<dots> = Inr ((acc @ parsed [t]) @ parsed (t' # ts))"
    using rest by (intro "3.IH") simp_all
  finally show ?case
    by (simp add: parsed_Cons [of t "t' # ts"])
qed

lemma interpretThreadCounts_tokens:
  "well_formed tokens \<Longrightarrow> interpretThreadCounts (join_spaces tokens) = Inr (parsed tokens)"
  using interpret_loop_tokens [of tokens "[]"]
  by (simp add: interpretThreadCounts_def well_formed_def)

lemma parsed_positive: "list_all (\<lambda>c. 0 < c) (parsed tokens)"
  by (simp add: parsed_def list_all_iff word_greater_zero_iff)

lemma main_arguments_unknown:
  "opt \<noteq> ''--threads'' \<or> args = [] \<Longrightarrow>
     main_arguments (opt # args) threadCounts = Inl (Return 1 (''unknown option '' @ opt))"
  by (cases args) auto

lemma main_arguments_threads:
  "well_formed tokens \<Longrightarrow>
     main_arguments (''--threads'' # join_spaces tokens # args) threadCounts =
     main_arguments args (parsed tokens)"
  by (simp add: interpretThreadCounts_tokens)

lemma main_arguments_options:
  "list_all well_formed vals \<Longrightarrow>
     main_arguments (threads_options vals @ args) threadCounts =
     main_arguments args (if vals = [] then threadCounts else parsed (last vals))"
proof (induction vals arbitrary: threadCounts)
  case Nil
  then show ?case by simp
next
  case (Cons tokens vals)
  then show ?case
    by (simp add: interpretThreadCounts_tokens)
qed

text \<open>
  C8, as stated: on every command line, an argument that is not \<^verbatim>\<open>--threads\<close> followed by
  a value makes the program print "unknown option" with the argument and exit with
  status 1, and a \<^verbatim>\<open>--threads\<close> followed by a space-separated token list replaces the
  list with the parsed tokens. The statement fails where a token is one \<^verbatim>\<open>std::stoi\<close>
  converts nothing from: the value \<^verbatim>\<open>"4 "\<close> has an empty token after its space, the
  exception is caught nowhere and ends the process; the list is not replaced, and an
  unknown option later on the same command line is never reported.
\<close>

theorem threads_value_counterexample:
  "main_arguments [''--threads'', ''4 ''] [1] = Inl (Uncaught Invalid_argument) \<and>
   main_arguments [''--threads'', ''4 '', ''--bogus''] [1] = Inl (Uncaught Invalid_argument)"
  by code_simp

text \<open>
  C8, amended: a value of \<^verbatim>\<open>--threads\<close> that consists of decimal numerals, each at most
  2147483647, separated by single spaces replaces the list by the numerals' values in
  order without the zeros, so every element is positive; and on a command line that
  starts with any number of such \<^verbatim>\<open>--threads\<close> options, the next argument, if it is not
  \<^verbatim>\<open>--threads\<close> followed by a value, makes the program print "unknown option " followed
  by that argument and return 1 from the argument loop, before any test work; when
  nothing follows, the tests run with the list of the last option (the default list when
  there was none).
\<close>

theorem main_arguments_well_formed:
  "(list_all well_formed vals \<and> (opt \<noteq> ''--threads'' \<or> args = []) \<longrightarrow>
      main_arguments (threads_options vals @ opt # args) threadCounts =
        Inl (Return 1 (''unknown option '' @ opt))) \<and>
   (well_formed tokens \<longrightarrow>
      interpretThreadCounts (join_spaces tokens) = Inr (parsed tokens) \<and>
      main_arguments (''--threads'' # join_spaces tokens # args) threadCounts =
        main_arguments args (parsed tokens) \<and>
      list_all (\<lambda>c. 0 < c) (parsed tokens)) \<and>
   parsed tokens = filter (\<lambda>c. c \<noteq> 0) (map (\<lambda>t. of_nat (digits_value 0 t)) tokens) \<and>
   (list_all well_formed vals \<longrightarrow>
      main_arguments (threads_options vals) threadCounts =
        Inr (if vals = [] then threadCounts else parsed (last vals)))"
proof -
  have a: "main_arguments (threads_options vals @ opt # args) threadCounts =
        Inl (Return 1 (''unknown option '' @ opt))"
    if "list_all well_formed vals" "opt \<noteq> ''--threads'' \<or> args = []"
    using main_arguments_options [OF that(1), of "opt # args" threadCounts]
      main_arguments_unknown [OF that(2)]
    by simp
  have b: "main_arguments (threads_options vals) threadCounts =
        Inr (if vals = [] then threadCounts else parsed (last vals))"
    if "list_all well_formed vals"
    using main_arguments_options [OF that, of "[]" threadCounts] by simp
  show ?thesis
    using a b interpretThreadCounts_tokens [of tokens]
      main_arguments_threads [of tokens args threadCounts] parsed_positive [of tokens]
    by (simp add: parsed_def)
qed

theorem main_arguments_well_formed_witness:
  "well_formed [''1'', ''0'', ''4''] \<and>
   interpretThreadCounts ''1 0 4'' = Inr [1, 4] \<and>
   main_arguments [''--threads'', ''1 0 4'', ''--bogus'', ''7''] [1, 2] =
     Inl (Return 1 ''unknown option --bogus'') \<and>
   main_arguments [''--threads'', ''1 0 4'', ''--threads''] [1, 2] =
     Inl (Return 1 ''unknown option --threads'') \<and>
   main_arguments [''--threads'', ''1 0 4''] [1, 2] = Inr [1, 4]"
proof -
  let ?tokens = "[''1'', ''0'', ''4'']"
  have n: "numeral_token ''1''" "numeral_token ''0''" "numeral_token ''4''"
    by (simp_all add: numeral_token_def isdigit_def)
  then have w: "well_formed ?tokens"
    by (simp add: well_formed_def)
  then have ws: "list_all well_formed [?tokens]"
    by simp
  have p: "parsed ?tokens = [1, 4]"
    by (simp add: parsed_def)
  have j: "join_spaces ?tokens = ''1 0 4''"
    by simp
  have t: "threads_options [?tokens] = [''--threads'', ''1 0 4'']"
    by simp
  note T1 = main_arguments_well_formed [of "[?tokens]" "''--bogus''" "[''7'']" "[1, 2]" ?tokens]
  note T2 = main_arguments_well_formed [of "[?tokens]" "''--threads''" "[]" "[1, 2]" ?tokens]
  have c1: "interpretThreadCounts ''1 0 4'' = Inr [1, 4]"
    using T1 w by (simp only: j p simp_thms)
  have "main_arguments (threads_options [?tokens] @ ''--bogus'' # [''7'']) [1, 2] =
      Inl (Return 1 (''unknown option '' @ ''--bogus''))"
    using T1 ws by (simp only: simp_thms) simp
  then have c2: "main_arguments [''--threads'', ''1 0 4'', ''--bogus'', ''7''] [1, 2] =
      Inl (Return 1 ''unknown option --bogus'')"
    by (simp only: t append.simps)
  have "main_arguments (threads_options [?tokens] @ ''--threads'' # []) [1, 2] =
      Inl (Return 1 (''unknown option '' @ ''--threads''))"
    using T2 ws by (simp only: simp_thms)
  then have c3: "main_arguments [''--threads'', ''1 0 4'', ''--threads''] [1, 2] =
      Inl (Return 1 ''unknown option --threads'')"
    by (simp only: t append.simps)
  have "main_arguments (threads_options [?tokens]) [1, 2] =
      Inr (if [?tokens] = [] then [1, 2] else parsed (last [?tokens]))"
    using T1 ws by (simp only: simp_thms)
  then have c4: "main_arguments [''--threads'', ''1 0 4''] [1, 2] = Inr [1, 4]"
    using p by (simp only: t) simp
  show ?thesis
    using w c1 c2 c3 c4 by (simp only: simp_thms)
qed

end
